theory Spec2Isabelle
  imports Main "HOL-Library.AList"
begin

section \<open>JavaScript values and objects\<close>

text \<open>
  The values that flow through \<^verbatim>\<open>src/core/Suite.js\<close>. Numbers are kept as integers
  plus \<open>NaN\<close>: the only thing the suite asks of a number is whether it is truthy.
  Functions are identified by a number. An object is its list of own properties in
  insertion order.
\<close>

text \<open>
  Modelled from the spec: the constructor \<open>JExpectationFailed\<close> stands for an instance
  of \<^verbatim>\<open>j$.errors.ExpectationFailed\<close>, whose declaration is not among the sources; the
  spec describes it as a signal that "carries no payload beyond its type tag".
\<close>

datatype js_value =
    JUndefined
  | JNull
  | JBool bool
  | JNum int
  | JNaN
  | JStr string
  | JFun nat
  | JError string
  | JExpectationFailed
  | JObj "(string \<times> js_value) list"

type_synonym js_object = "(string \<times> js_value) list"

text \<open>\<^verbatim>\<open>!!v\<close>: the values JavaScript treats as false are \<^verbatim>\<open>undefined\<close>, \<^verbatim>\<open>null\<close>,
  \<^verbatim>\<open>false\<close>, \<^verbatim>\<open>0\<close>, \<^verbatim>\<open>NaN\<close> and the empty string.\<close>

fun truthy :: "js_value \<Rightarrow> bool" where
  "truthy JUndefined = False"
| "truthy JNull = False"
| "truthy (JBool b) = b"
| "truthy (JNum n) = (n \<noteq> 0)"
| "truthy JNaN = False"
| "truthy (JStr s) = (s \<noteq> [])"
| "truthy (JFun f) = True"
| "truthy (JError m) = True"
| "truthy JExpectationFailed = True"
| "truthy (JObj ps) = True"

text \<open>\<^verbatim>\<open>v instanceof j$.errors.ExpectationFailed\<close>: the instances are the values
  built by \<^verbatim>\<open>new j$.errors.ExpectationFailed()\<close>.\<close>

fun instanceof_ExpectationFailed :: "js_value \<Rightarrow> bool" where
  "instanceof_ExpectationFailed JExpectationFailed = True"
| "instanceof_ExpectationFailed v = False"

text \<open>\<^verbatim>\<open>obj[key] = value\<close> replaces an existing property in place and adds a new one
  at the end; \<^verbatim>\<open>obj[key]\<close> reads it (\<open>None\<close> is JavaScript's \<^verbatim>\<open>undefined\<close>).\<close>

definition set_prop :: "js_object \<Rightarrow> string \<Rightarrow> js_value \<Rightarrow> js_object" where
  "set_prop obj key v = AList.update key v obj"

definition get_prop :: "js_object \<Rightarrow> string \<Rightarrow> js_value option" where
  "get_prop obj key = map_of obj key"

text \<open>\<^verbatim>\<open>Array.prototype.join\<close> on an array of strings.\<close>

fun join :: "string \<Rightarrow> string list \<Rightarrow> string" where
  "join sep [] = []"
| "join sep [x] = x"
| "join sep (x # y # ys) = x @ sep @ join sep (y # ys)"

section \<open>The suite object and the store\<close>

type_synonym addr = nat
type_synonym caddr = nat

datatype child = SuiteChild addr | SpecChild nat

text \<open>The \<^verbatim>\<open>SuiteResult\<close> record built by the constructor. \<^verbatim>\<open>status\<close> is absent
  until \<^verbatim>\<open>getResult\<close> writes it.\<close>

record suite_result =
  result_id :: string
  result_description :: string
  fullName :: string
  failedExpectations :: "js_object list"
  deprecationWarnings :: "js_object list"
  duration :: "int option"
  properties :: "js_object option"
  result_status :: "string option"

text \<open>
  The fields of a \<^verbatim>\<open>Suite\<close>. \<^verbatim>\<open>parentSuite\<close> is a reference into the store
  (\<open>None\<close> for \<^verbatim>\<open>null\<close>/\<^verbatim>\<open>undefined\<close>); \<^verbatim>\<open>sharedContext\<close> is a reference to a
  \<^verbatim>\<open>UserContext\<close> object and starts out undefined, as does \<^verbatim>\<open>markedPending\<close>.
  A hook is an object with an \<^verbatim>\<open>fn\<close> property. The environment, the timer and the two
  expectation factories are collaborators outside this file and are not part of the
  record; the injected \<^verbatim>\<open>expectationResultFactory\<close> is.
\<close>

record suite =
  suite_id :: string
  parentSuite :: "addr option"
  description :: string
  expectationResultFactory :: "js_value \<Rightarrow> js_object"
  throwOnExpectationFailure :: bool
  beforeFns :: "js_object list"
  afterFns :: "js_object list"
  beforeAllFns :: "js_object list"
  afterAllFns :: "js_object list"
  children :: "child list"
  result :: suite_result
  markedPending :: bool
  sharedContext :: "caddr option"

text \<open>
  Suites and user contexts are mutable objects reached through references, so they live
  in a store: a reference is an index, allocation appends. A reference beyond the end
  of the store has no counterpart in JavaScript; reading it is \<open>None\<close>.
\<close>

record store =
  suites :: "suite list"
  contexts :: "js_object list"

definition lookup :: "'a list \<Rightarrow> nat \<Rightarrow> 'a option" where
  "lookup xs a = (if a < length xs then Some (xs ! a) else None)"

section \<open>getFullName\<close>

text \<open>
  The loop of \<^verbatim>\<open>getFullName\<close>: \<open>cur\<close> is the loop variable \<^verbatim>\<open>parentSuite\<close>, \<open>acc\<close> the
  array \<^verbatim>\<open>fullName\<close>. The loop follows parent references for as long as there is one,
  so it is a partial function: \<open>None\<close> means that it does not return.
\<close>

partial_function (option) getFullName_loop ::
  "suite list \<Rightarrow> addr option \<Rightarrow> string list \<Rightarrow> string list option" where
  "getFullName_loop ss cur acc =
     (case cur of
        None \<Rightarrow> Some acc
      | Some a \<Rightarrow>
          (case lookup ss a of
             None \<Rightarrow> None
           | Some s \<Rightarrow>
               getFullName_loop ss (parentSuite s)
                 (if parentSuite s \<noteq> None then description s # acc else acc)))"

definition getFullName :: "suite list \<Rightarrow> addr \<Rightarrow> string option" where
  "getFullName ss a = map_option (join '' '') (getFullName_loop ss (Some a) [])"

text \<open>
  The spec's wording, as a relation: \<open>path_from_root ss p a\<close> holds when \<open>p\<close> lists the
  nodes from the tree root down to \<open>a\<close>, each the parent of the next.
\<close>

inductive path_from_root :: "suite list \<Rightarrow> addr list \<Rightarrow> addr \<Rightarrow> bool" where
  root: "lookup ss a = Some s \<Longrightarrow> parentSuite s = None \<Longrightarrow> path_from_root ss [a] a"
| child: "lookup ss a = Some s \<Longrightarrow> parentSuite s = Some p \<Longrightarrow> path_from_root ss ps p
          \<Longrightarrow> path_from_root ss (ps @ [a]) a"

definition has_parent :: "suite list \<Rightarrow> addr \<Rightarrow> bool" where
  "has_parent ss a = (case lookup ss a of None \<Rightarrow> False | Some s \<Rightarrow> parentSuite s \<noteq> None)"

definition description_of :: "suite list \<Rightarrow> addr \<Rightarrow> string" where
  "description_of ss a = (case lookup ss a of None \<Rightarrow> [] | Some s \<Rightarrow> description s)"

definition full_name_spec :: "suite list \<Rightarrow> addr list \<Rightarrow> string" where
  "full_name_spec ss p = join '' '' (map (description_of ss) (filter (has_parent ss) p))"

text \<open>
  The constructor hands every new suite a parent that already exists, so a parent
  reference always points to an earlier allocation.
\<close>

definition parents_earlier :: "suite list \<Rightarrow> bool" where
  "parents_earlier ss =
     list_all (\<lambda>(a, s). case parentSuite s of None \<Rightarrow> True | Some p \<Rightarrow> p < a)
       (enumerate 0 ss)"

section \<open>Construction\<close>

text \<open>
  The attribute bundle read by the constructor. \<^verbatim>\<open>throwOnExpectationFailure\<close> may be
  any value: the constructor coerces it with \<^verbatim>\<open>!!\<close>.
\<close>

record suite_attrs =
  attr_id :: string
  attr_parentSuite :: "addr option"
  attr_description :: string
  attr_expectationResultFactory :: "js_value \<Rightarrow> js_object"
  attr_throwOnExpectationFailure :: js_value

definition no_result :: suite_result where
  "no_result =
     \<lparr>result_id = [], result_description = [], fullName = [], failedExpectations = [],
      deprecationWarnings = [], duration = None, properties = None, result_status = None\<rparr>"

text \<open>
  \<^verbatim>\<open>new Suite(attrs)\<close>: the new object is allocated, its fields are assigned, and then
  \<^verbatim>\<open>this.result\<close> is built, calling \<^verbatim>\<open>this.getFullName()\<close> on the object as it is at
  that point (\<open>no_result\<close> stands for the still unassigned \<^verbatim>\<open>result\<close>, which
  \<^verbatim>\<open>getFullName\<close> does not read).
\<close>

definition Suite :: "store \<Rightarrow> suite_attrs \<Rightarrow> (addr \<times> store) option" where
  "Suite st attrs =
     (let this = length (suites st);
          s = \<lparr>suite_id = attr_id attrs,
               parentSuite = attr_parentSuite attrs,
               description = attr_description attrs,
               expectationResultFactory = attr_expectationResultFactory attrs,
               throwOnExpectationFailure = truthy (attr_throwOnExpectationFailure attrs),
               beforeFns = [], afterFns = [], beforeAllFns = [], afterAllFns = [],
               children = [],
               result = no_result,
               markedPending = False,
               sharedContext = None\<rparr>;
          ss = suites st @ [s]
      in case getFullName ss this of
           None \<Rightarrow> None
         | Some n \<Rightarrow>
             Some (this,
               st\<lparr>suites := ss[this := s\<lparr>result :=
                 \<lparr>result_id = suite_id s,
                  result_description = description s,
                  fullName = n,
                  failedExpectations = [],
                  deprecationWarnings = [],
                  duration = None,
                  properties = None,
                  result_status = None\<rparr>\<rparr>]\<rparr>))"

section \<open>Methods that touch only the receiver\<close>

definition setSuiteProperty :: "suite \<Rightarrow> string \<Rightarrow> js_value \<Rightarrow> suite" where
  "setSuiteProperty s key v =
     s\<lparr>result := (result s)\<lparr>properties :=
        Some (set_prop (case properties (result s) of None \<Rightarrow> [] | Some ps \<Rightarrow> ps) key v)\<rparr>\<rparr>"

definition pend :: "suite \<Rightarrow> suite" where
  "pend s = s\<lparr>markedPending := True\<rparr>"

text \<open>\<^verbatim>\<open>unshift\<close> puts the hook at the front, \<^verbatim>\<open>push\<close> at the end.\<close>

definition beforeEach :: "suite \<Rightarrow> js_object \<Rightarrow> suite" where
  "beforeEach s fn = s\<lparr>beforeFns := fn # beforeFns s\<rparr>"

definition beforeAll :: "suite \<Rightarrow> js_object \<Rightarrow> suite" where
  "beforeAll s fn = s\<lparr>beforeAllFns := beforeAllFns s @ [fn]\<rparr>"

definition afterEach :: "suite \<Rightarrow> js_object \<Rightarrow> suite" where
  "afterEach s fn = s\<lparr>afterFns := fn # afterFns s\<rparr>"

definition afterAll :: "suite \<Rightarrow> js_object \<Rightarrow> suite" where
  "afterAll s fn = s\<lparr>afterAllFns := fn # afterAllFns s\<rparr>"

text \<open>The timer is a collaborator: \<^verbatim>\<open>startTimer\<close> changes nothing in the suite, and
  \<^verbatim>\<open>endTimer\<close> stores whatever \<^verbatim>\<open>timer.elapsed()\<close> reads, here the argument.\<close>

definition startTimer :: "suite \<Rightarrow> suite" where
  "startTimer s = s"

definition endTimer :: "suite \<Rightarrow> int \<Rightarrow> suite" where
  "endTimer s elapsed = s\<lparr>result := (result s)\<lparr>duration := Some elapsed\<rparr>\<rparr>"

text \<open>The loop of \<^verbatim>\<open>removeFns\<close>, by index as in the source.\<close>

function removeFns_loop :: "nat \<Rightarrow> js_object list \<Rightarrow> js_object list" where
  "removeFns_loop i queueableFns =
     (if i < length queueableFns
      then removeFns_loop (i + 1)
             (queueableFns[i := set_prop (queueableFns ! i) ''fn'' JNull])
      else queueableFns)"
  by pat_completeness auto
termination
  by (relation "measure (\<lambda>(i, q). length q - i)") auto

declare removeFns_loop.simps [simp del]

definition removeFns :: "js_object list \<Rightarrow> js_object list" where
  "removeFns queueableFns = removeFns_loop 0 queueableFns"

definition cleanupBeforeAfter :: "suite \<Rightarrow> suite" where
  "cleanupBeforeAfter s =
     (let s1 = s\<lparr>beforeAllFns := removeFns (beforeAllFns s)\<rparr>;
          s2 = s1\<lparr>afterAllFns := removeFns (afterAllFns s1)\<rparr>;
          s3 = s2\<lparr>beforeFns := removeFns (beforeFns s2)\<rparr>
      in s3\<lparr>afterFns := removeFns (afterFns s3)\<rparr>)"

definition addChild :: "suite \<Rightarrow> child \<Rightarrow> suite" where
  "addChild s c = s\<lparr>children := children s @ [c]\<rparr>"

definition status :: "suite \<Rightarrow> string" where
  "status s =
     (if markedPending s then ''pending''
      else if length (failedExpectations (result s)) > 0 then ''failed''
      else ''passed'')"

definition canBeReentered :: "suite \<Rightarrow> bool" where
  "canBeReentered s = (length (beforeAllFns s) = 0 \<and> length (afterAllFns s) = 0)"

text \<open>\<^verbatim>\<open>getResult\<close> writes \<^verbatim>\<open>status\<close> into the result record and returns the record.\<close>

definition getResult :: "suite \<Rightarrow> suite_result \<times> suite" where
  "getResult s =
     (let s' = s\<lparr>result := (result s)\<lparr>result_status := Some (status s)\<rparr>\<rparr>
      in (result s', s'))"

text \<open>\<^verbatim>\<open>arguments[i]\<close>: a missing argument reads as \<^verbatim>\<open>undefined\<close>.\<close>

definition arg :: "js_value list \<Rightarrow> nat \<Rightarrow> js_value" where
  "arg args i = (if i < length args then args ! i else JUndefined)"

definition onException :: "suite \<Rightarrow> js_value list \<Rightarrow> suite" where
  "onException s args =
     (if instanceof_ExpectationFailed (arg args 0) then s
      else
        let data = JObj [(''matcherName'', JStr ''''),
                         (''passed'', JBool False),
                         (''expected'', JStr ''''),
                         (''actual'', JStr ''''),
                         (''error'', arg args 0)];
            failedExpectation = expectationResultFactory s data;
            failedExpectation =
              (if parentSuite s = None
               then set_prop failedExpectation ''globalErrorType'' (JStr ''afterAll'')
               else failedExpectation)
        in s\<lparr>result := (result s)\<lparr>failedExpectations :=
             failedExpectations (result s) @ [failedExpectation]\<rparr>\<rparr>)"

definition isFailure :: "js_value list \<Rightarrow> bool" where
  "isFailure args = (\<not> truthy (arg args 0))"

text \<open>A call either returns or throws; what it did to the suite before throwing stays.\<close>

datatype completion = Normal | Throw js_value

definition addExpectationResult :: "suite \<Rightarrow> js_value list \<Rightarrow> completion \<times> suite" where
  "addExpectationResult s args =
     (if isFailure args then
        let data = arg args 1;
            s' = s\<lparr>result := (result s)\<lparr>failedExpectations :=
                   failedExpectations (result s) @ [expectationResultFactory s data]\<rparr>\<rparr>
        in if throwOnExpectationFailure s' then (Throw JExpectationFailed, s')
           else (Normal, s')
      else (Normal, s))"

definition addDeprecationWarning :: "suite \<Rightarrow> js_value \<Rightarrow> suite" where
  "addDeprecationWarning s deprecation =
     (let deprecation =
            (case deprecation of
               JStr m \<Rightarrow> JObj [(''message'', JStr m)]
             | _ \<Rightarrow> deprecation)
      in s\<lparr>result := (result s)\<lparr>deprecationWarnings :=
           deprecationWarnings (result s) @ [expectationResultFactory s deprecation]\<rparr>\<rparr>)"

text \<open>\<^verbatim>\<open>onMultipleDone\<close> changes nothing in the suite; the value is the message it
  passes to \<^verbatim>\<open>env.deprecated\<close>.\<close>

definition onMultipleDone :: "suite list \<Rightarrow> addr \<Rightarrow> string option" where
  "onMultipleDone ss this =
     (case lookup ss this of
        None \<Rightarrow> None
      | Some s \<Rightarrow>
          if parentSuite s \<noteq> None then
            map_option
              (\<lambda>n. ''An asynchronous function called its 'done' callback more than '' @
                   ''once. This is a bug in the spec, beforeAll, beforeEach, afterAll, '' @
                   ''or afterEach function in question. This will be treated as an error '' @
                   ''in a future version.'' @ [CHR 0x0A] @
                   ''(in suite: '' @ n @ '')'')
              (getFullName ss this)
          else
            Some (''A top-level beforeAll or afterAll function called its '' @
                  '''done' callback more than once. This is a bug in the beforeAll '' @
                  ''or afterAll function in question. This will be treated as an '' @
                  ''error in a future version.''))"

section \<open>The shared user context\<close>

text \<open>
  Modelled from the spec: \<^verbatim>\<open>new j$.UserContext()\<close>. \<^verbatim>\<open>j$.UserContext\<close> is not among
  the sources; the spec names "\<^verbatim>\<open>new contextType()\<close> for empty creation" and says "a
  fresh empty context is created". It allocates an object without properties.
\<close>

definition new_UserContext :: "store \<Rightarrow> caddr \<times> store" where
  "new_UserContext st = (length (contexts st), st\<lparr>contexts := contexts st @ [[]]\<rparr>)"

text \<open>
  Modelled from the spec: \<^verbatim>\<open>j$.UserContext.fromExisting\<close>, which is not among the
  sources. The spec gives "\<^verbatim>\<open>contextType.fromExisting(context) -> context\<close>" and calls
  the result "an independent copy of the parent's current context contents at that
  moment (value-snapshot, not a live reference)". It allocates an object and fills it
  with the properties the old one has.
\<close>

definition fromExisting :: "store \<Rightarrow> caddr \<Rightarrow> (caddr \<times> store) option" where
  "fromExisting st old =
     (case lookup (contexts st) old of
        None \<Rightarrow> None
      | Some ps \<Rightarrow> Some (length (contexts st), st\<lparr>contexts := contexts st @ [ps]\<rparr>))"

text \<open>\<^verbatim>\<open>this.sharedContext = c\<close> for the suite at \<open>this\<close>.\<close>

definition set_sharedContext :: "store \<Rightarrow> addr \<Rightarrow> caddr \<Rightarrow> store" where
  "set_sharedContext st this c =
     st\<lparr>suites := (suites st)[this := (suites st ! this)\<lparr>sharedContext := Some c\<rparr>]\<rparr>"

text \<open>
  \<^verbatim>\<open>sharedUserContext\<close> and \<^verbatim>\<open>clonedSharedUserContext\<close> call each other up the parent
  chain. The recursion is written as one partial function, with the parent's
  \<^verbatim>\<open>clonedSharedUserContext()\<close> unfolded at its call site (the parent's
  \<^verbatim>\<open>sharedUserContext()\<close>, then \<^verbatim>\<open>fromExisting\<close>); \<open>None\<close> means that the call does not
  return.
\<close>

partial_function (option) sharedUserContext :: "store \<Rightarrow> addr \<Rightarrow> (caddr \<times> store) option" where
  "sharedUserContext st this =
     (case lookup (suites st) this of
        None \<Rightarrow> None
      | Some s \<Rightarrow>
          (case sharedContext s of
             Some c \<Rightarrow> Some (c, st)
           | None \<Rightarrow>
               (case parentSuite s of
                  Some p \<Rightarrow>
                    Option.bind (sharedUserContext st p) (\<lambda>(pc, st1).
                    Option.bind (fromExisting st1 pc) (\<lambda>(c, st2).
                    Some (c, set_sharedContext st2 this c)))
                | None \<Rightarrow>
                    (case new_UserContext st of
                       (c, st1) \<Rightarrow> Some (c, set_sharedContext st1 this c)))))"

definition clonedSharedUserContext :: "store \<Rightarrow> addr \<Rightarrow> (caddr \<times> store) option" where
  "clonedSharedUserContext st this =
     Option.bind (sharedUserContext st this) (\<lambda>(c, st1). fromExisting st1 c)"

text \<open>User code writing a property of a context object: \<^verbatim>\<open>context[key] = value\<close>.\<close>

definition context_assign :: "store \<Rightarrow> caddr \<Rightarrow> string \<Rightarrow> js_value \<Rightarrow> store" where
  "context_assign st c key v =
     st\<lparr>contexts := (contexts st)[c := set_prop (contexts st ! c) key v]\<rparr>"

declare getFullName_loop.simps [code]
declare sharedUserContext.simps [code]

section \<open>Histories\<close>

text \<open>
  What can happen to a store: a suite is constructed, a method is called on a suite, or
  user code writes a property of a context object. \<open>exec\<close> gives the store after
  a method call, whether the call returned or threw; \<open>None\<close> means the call does not
  return. \<^verbatim>\<open>expect\<close> and \<^verbatim>\<open>expectAsync\<close> only hand the suite to an injected factory and
  are left out.
\<close>

datatype call =
    SetSuiteProperty string js_value
  | GetFullName
  | Pend
  | BeforeEach js_object
  | BeforeAll js_object
  | AfterEach js_object
  | AfterAll js_object
  | StartTimer
  | EndTimer int
  | CleanupBeforeAfter
  | AddChild child
  | Status
  | CanBeReentered
  | GetResult
  | SharedUserContext
  | ClonedSharedUserContext
  | OnException "js_value list"
  | OnMultipleDone
  | AddExpectationResult "js_value list"
  | AddDeprecationWarning js_value

definition on_receiver :: "store \<Rightarrow> addr \<Rightarrow> (suite \<Rightarrow> suite) \<Rightarrow> store option" where
  "on_receiver st this f =
     (case lookup (suites st) this of
        None \<Rightarrow> None
      | Some s \<Rightarrow> Some (st\<lparr>suites := (suites st)[this := f s]\<rparr>))"

fun exec :: "store \<Rightarrow> addr \<Rightarrow> call \<Rightarrow> store option" where
  "exec st this (SetSuiteProperty key v) = on_receiver st this (\<lambda>s. setSuiteProperty s key v)"
| "exec st this GetFullName = map_option (\<lambda>n. st) (getFullName (suites st) this)"
| "exec st this Pend = on_receiver st this pend"
| "exec st this (BeforeEach fn) = on_receiver st this (\<lambda>s. beforeEach s fn)"
| "exec st this (BeforeAll fn) = on_receiver st this (\<lambda>s. beforeAll s fn)"
| "exec st this (AfterEach fn) = on_receiver st this (\<lambda>s. afterEach s fn)"
| "exec st this (AfterAll fn) = on_receiver st this (\<lambda>s. afterAll s fn)"
| "exec st this StartTimer = on_receiver st this startTimer"
| "exec st this (EndTimer elapsed) = on_receiver st this (\<lambda>s. endTimer s elapsed)"
| "exec st this CleanupBeforeAfter = on_receiver st this cleanupBeforeAfter"
| "exec st this (AddChild c) = on_receiver st this (\<lambda>s. addChild s c)"
| "exec st this Status = on_receiver st this (\<lambda>s. s)"
| "exec st this CanBeReentered = on_receiver st this (\<lambda>s. s)"
| "exec st this GetResult = on_receiver st this (\<lambda>s. snd (getResult s))"
| "exec st this SharedUserContext = map_option snd (sharedUserContext st this)"
| "exec st this ClonedSharedUserContext = map_option snd (clonedSharedUserContext st this)"
| "exec st this (OnException args) = on_receiver st this (\<lambda>s. onException s args)"
| "exec st this OnMultipleDone = map_option (\<lambda>m. st) (onMultipleDone (suites st) this)"
| "exec st this (AddExpectationResult args) =
     on_receiver st this (\<lambda>s. snd (addExpectationResult s args))"
| "exec st this (AddDeprecationWarning d) = on_receiver st this (\<lambda>s. addDeprecationWarning s d)"

datatype event =
    New suite_attrs
  | Call addr call
  | ContextAssign caddr string js_value

text \<open>A reference that an event mentions is a reference to an object that exists.\<close>

fun step :: "store \<Rightarrow> event \<Rightarrow> store option" where
  "step st (New attrs) =
     (if (case attr_parentSuite attrs of None \<Rightarrow> True | Some p \<Rightarrow> p < length (suites st))
      then map_option snd (Suite st attrs) else None)"
| "step st (Call this c) = exec st this c"
| "step st (ContextAssign c key v) =
     (if c < length (contexts st) then Some (context_assign st c key v) else None)"

fun run :: "store \<Rightarrow> event list \<Rightarrow> store option" where
  "run st [] = Some st"
| "run st (e # es) = (case step st e of None \<Rightarrow> None | Some st' \<Rightarrow> run st' es)"

definition empty_store :: store where
  "empty_store = \<lparr>suites = [], contexts = []\<rparr>"

text \<open>Every context reference held by a suite is a reference to a context that exists.\<close>

definition contexts_exist :: "store \<Rightarrow> bool" where
  "contexts_exist st =
     list_all (\<lambda>s. case sharedContext s of None \<Rightarrow> True | Some c \<Rightarrow> c < length (contexts st))
       (suites st)"

section \<open>A small tree\<close>

text \<open>
  The tree of the spec's example: a top suite, its child "Calculator" and the
  grandchild "add". The factory of the example wraps what it is given.
\<close>

definition example_factory :: "js_value \<Rightarrow> js_object" where
  "example_factory data = [(''normalized'', data)]"

definition example_attrs :: "string \<Rightarrow> addr option \<Rightarrow> js_value \<Rightarrow> suite_attrs" where
  "example_attrs d p t =
     \<lparr>attr_id = d, attr_parentSuite = p, attr_description = d,
      attr_expectationResultFactory = example_factory,
      attr_throwOnExpectationFailure = t\<rparr>"

definition calculator_events :: "event list" where
  "calculator_events =
     [New (example_attrs ''Jasmine__TopLevel__Suite'' None JUndefined),
      New (example_attrs ''Calculator'' (Some 0) JUndefined),
      New (example_attrs ''add'' (Some 1) (JBool True))]"

text \<open>What the three constructor calls leave in the store.\<close>

definition constructed :: "string \<Rightarrow> addr option \<Rightarrow> bool \<Rightarrow> string \<Rightarrow> suite" where
  "constructed d p t n =
     \<lparr>suite_id = d, parentSuite = p, description = d,
      expectationResultFactory = example_factory,
      throwOnExpectationFailure = t,
      beforeFns = [], afterFns = [], beforeAllFns = [], afterAllFns = [],
      children = [],
      result = \<lparr>result_id = d, result_description = d, fullName = n,
                failedExpectations = [], deprecationWarnings = [],
                duration = None, properties = None, result_status = None\<rparr>,
      markedPending = False,
      sharedContext = None\<rparr>"

definition calculator_suites :: "suite list" where
  "calculator_suites =
     [constructed ''Jasmine__TopLevel__Suite'' None False '''',
      constructed ''Calculator'' (Some 0) False ''Calculator'',
      constructed ''add'' (Some 1) True ''Calculator add'']"

definition calculator_store :: store where
  "calculator_store = \<lparr>suites = calculator_suites, contexts = []\<rparr>"

section \<open>Sequences of hook registrations\<close>

text \<open>
  A registration names one of the four hook methods and the hook it is given;
  \<open>register_all\<close> performs a sequence of registrations in order, and \<open>declared k regs\<close>
  lists, in declaration order, the hooks that \<open>regs\<close> registers with method \<open>k\<close>.
\<close>

datatype hook_method = BeforeEachMethod | BeforeAllMethod | AfterEachMethod | AfterAllMethod

fun register :: "suite \<Rightarrow> hook_method \<times> js_object \<Rightarrow> suite" where
  "register s (BeforeEachMethod, fn) = beforeEach s fn"
| "register s (BeforeAllMethod, fn) = beforeAll s fn"
| "register s (AfterEachMethod, fn) = afterEach s fn"
| "register s (AfterAllMethod, fn) = afterAll s fn"

definition register_all :: "suite \<Rightarrow> (hook_method \<times> js_object) list \<Rightarrow> suite" where
  "register_all s regs = foldl register s regs"

definition declared :: "hook_method \<Rightarrow> (hook_method \<times> js_object) list \<Rightarrow> js_object list" where
  "declared k regs = map snd (filter (\<lambda>r. fst r = k) regs)"

text \<open>A hook as the environment hands it over: the function and a timeout.\<close>

definition example_hook :: "nat \<Rightarrow> js_object" where
  "example_hook n = [(''fn'', JFun n), (''timeout'', JNum 5000)]"

section \<open>Well-formed stores\<close>

text \<open>
  No two suites hold the same context object: each suite that has a context got it
  from \<^verbatim>\<open>new UserContext()\<close> or \<^verbatim>\<open>fromExisting\<close>, which allocate.
\<close>

definition contexts_apart :: "store \<Rightarrow> bool" where
  "contexts_apart st =
     (\<forall>a < length (suites st). \<forall>b < length (suites st).
        a \<noteq> b \<longrightarrow> sharedContext (suites st ! a) = None \<or>
                 sharedContext (suites st ! a) \<noteq> sharedContext (suites st ! b))"

definition well_formed :: "store \<Rightarrow> bool" where
  "well_formed st = (parents_earlier (suites st) \<and> contexts_exist st \<and> contexts_apart st)"

text \<open>
  \<open>same_identity s s'\<close>: \<open>s'\<close> has the parent, the description and the cached full name of
  \<open>s\<close>, and is pending if \<open>s\<close> is. \<open>evolves st st'\<close>: every suite of \<open>st\<close> is still there
  in \<open>st'\<close>, with the same identity.
\<close>

definition same_identity :: "suite \<Rightarrow> suite \<Rightarrow> bool" where
  "same_identity s s' =
     (parentSuite s' = parentSuite s \<and> description s' = description s \<and>
      fullName (result s') = fullName (result s) \<and>
      (markedPending s \<longrightarrow> markedPending s'))"

definition evolves :: "store \<Rightarrow> store \<Rightarrow> bool" where
  "evolves st st' =
     (length (suites st) \<le> length (suites st') \<and>
      (\<forall>b < length (suites st). same_identity (suites st ! b) (suites st' ! b)))"

text \<open>
  \<open>only_contexts_set this st st'\<close>: what a call of \<^verbatim>\<open>sharedUserContext\<close> on \<open>this\<close> may
  do to the store. It allocates contexts and leaves the old ones alone; it assigns
  \<^verbatim>\<open>sharedContext\<close> of suites that had none, none of them allocated after \<open>this\<close>;
  nothing else changes.
\<close>

definition only_contexts_set :: "addr \<Rightarrow> store \<Rightarrow> store \<Rightarrow> bool" where
  "only_contexts_set this st st' =
     (length (suites st') = length (suites st) \<and>
      (\<forall>b < length (suites st).
         suites st' ! b = (suites st ! b)\<lparr>sharedContext := sharedContext (suites st' ! b)\<rparr> \<and>
         (sharedContext (suites st ! b) \<noteq> None \<or> this < b \<longrightarrow>
            sharedContext (suites st' ! b) = sharedContext (suites st ! b))) \<and>
      length (contexts st) \<le> length (contexts st') \<and>
      take (length (contexts st)) (contexts st') = contexts st)"

text \<open>The full name cached in every result record is what \<open>getFullName\<close> returns now.\<close>

definition full_names_cached :: "store \<Rightarrow> bool" where
  "full_names_cached st =
     (\<forall>a < length (suites st).
        getFullName (suites st) a = Some (fullName (result (suites st ! a))))"

section \<open>The context example\<close>

text \<open>
  The spec's context example: the top suite gets its context and user code stores
  \<^verbatim>\<open>x = 1\<close> in it (\<open>parent_x1\<close>); then the child asks for its context (\<open>child_x1\<close>).
\<close>

definition snapshot_events :: "event list" where
  "snapshot_events =
     [New (example_attrs ''Jasmine__TopLevel__Suite'' None JUndefined),
      New (example_attrs ''Calculator'' (Some 0) JUndefined),
      Call 0 SharedUserContext,
      ContextAssign 0 ''x'' (JNum 1)]"

definition parent_x1 :: store where
  "parent_x1 =
     \<lparr>suites =
        [(constructed ''Jasmine__TopLevel__Suite'' None False '''')\<lparr>sharedContext := Some 0\<rparr>,
         constructed ''Calculator'' (Some 0) False ''Calculator''],
      contexts = [[(''x'', JNum 1)]]\<rparr>"

definition child_x1 :: store where
  "child_x1 =
     \<lparr>suites =
        [(constructed ''Jasmine__TopLevel__Suite'' None False '''')\<lparr>sharedContext := Some 0\<rparr>,
         (constructed ''Calculator'' (Some 0) False ''Calculator'')\<lparr>sharedContext := Some 1\<rparr>],
      contexts = [[(''x'', JNum 1)], [(''x'', JNum 1)]]\<rparr>"

text \<open>
  In \<open>three_levels\<close> the grandchild "add" has been constructed as well; the top
  suite's context holds \<^verbatim>\<open>x = 1\<close> and \<^verbatim>\<open>y = 2\<close>, and neither descendant has a
  context yet. \<open>three_levels_shared\<close> is the store after the grandchild has asked for
  its context.
\<close>

definition three_levels_events :: "event list" where
  "three_levels_events =
     [New (example_attrs ''Jasmine__TopLevel__Suite'' None JUndefined),
      New (example_attrs ''Calculator'' (Some 0) JUndefined),
      New (example_attrs ''add'' (Some 1) (JBool True)),
      Call 0 SharedUserContext,
      ContextAssign 0 ''x'' (JNum 1),
      ContextAssign 0 ''y'' (JNum 2)]"

definition three_levels :: store where
  "three_levels =
     \<lparr>suites =
        [(constructed ''Jasmine__TopLevel__Suite'' None False '''')\<lparr>sharedContext := Some 0\<rparr>,
         constructed ''Calculator'' (Some 0) False ''Calculator'',
         constructed ''add'' (Some 1) True ''Calculator add''],
      contexts = [[(''x'', JNum 1), (''y'', JNum 2)]]\<rparr>"

definition three_levels_shared :: store where
  "three_levels_shared =
     \<lparr>suites =
        [(constructed ''Jasmine__TopLevel__Suite'' None False '''')\<lparr>sharedContext := Some 0\<rparr>,
         (constructed ''Calculator'' (Some 0) False ''Calculator'')\<lparr>sharedContext := Some 1\<rparr>,
         (constructed ''add'' (Some 1) True ''Calculator add'')\<lparr>sharedContext := Some 2\<rparr>],
      contexts = [[(''x'', JNum 1), (''y'', JNum 2)], [(''x'', JNum 1), (''y'', JNum 2)],
                  [(''x'', JNum 1), (''y'', JNum 2)]]\<rparr>"

section \<open>The contents a context is to have\<close>

text \<open>
  The spec's wording, as a relation on the store before the call:
  \<open>inherited_contents st a ps\<close> holds when \<open>ps\<close> are the contents that the context of
  the suite at \<open>a\<close> has in \<open>st\<close> or, if the suite has no context yet, is to be
  created with: nothing for a suite without a parent, and for a suite with a parent "an
  independent copy of the parent's current context contents at that moment", where a
  parent without a context first gets its own in the same way.
\<close>

inductive inherited_contents :: "store \<Rightarrow> addr \<Rightarrow> js_object \<Rightarrow> bool" where
  own: "lookup (suites st) a = Some s \<Longrightarrow> sharedContext s = Some c \<Longrightarrow>
        lookup (contexts st) c = Some ps \<Longrightarrow> inherited_contents st a ps"
| empty: "lookup (suites st) a = Some s \<Longrightarrow> sharedContext s = None \<Longrightarrow>
          parentSuite s = None \<Longrightarrow> inherited_contents st a []"
| parent: "lookup (suites st) a = Some s \<Longrightarrow> sharedContext s = None \<Longrightarrow>
           parentSuite s = Some p \<Longrightarrow> inherited_contents st p ps \<Longrightarrow>
           inherited_contents st a ps"

section \<open>Properties of getFullName\<close>

lemma lookup_Some_iff: "lookup xs a = Some x \<longleftrightarrow> a < length xs \<and> xs ! a = x"
  by (auto simp: lookup_def)

lemma parents_earlier_iff:
  "parents_earlier ss \<longleftrightarrow>
     (\<forall>a < length ss. \<forall>p. parentSuite (ss ! a) = Some p \<longrightarrow> p < a)"
  by (auto simp: parents_earlier_def list_all_length nth_enumerate_eq split: option.splits)

lemma getFullName_loop_None: "getFullName_loop ss None acc = Some acc"
  by (simp add: getFullName_loop.simps)

lemma getFullName_loop_Some:
  "lookup ss a = Some s \<Longrightarrow>
   getFullName_loop ss (Some a) acc =
     getFullName_loop ss (parentSuite s)
       (if parentSuite s \<noteq> None then description s # acc else acc)"
  by (subst getFullName_loop.simps) simp

lemma getFullName_loop_path:
  "path_from_root ss p a \<Longrightarrow>
   getFullName_loop ss (Some a) acc =
     Some (map (description_of ss) (filter (has_parent ss) p) @ acc)"
proof (induction arbitrary: acc rule: path_from_root.induct)
  case (root ss a s)
  then show ?case
    by (simp add: getFullName_loop_Some getFullName_loop_None has_parent_def)
next
  case (child ss a s p ps)
  then show ?case
    by (simp add: getFullName_loop_Some has_parent_def description_of_def)
qed

lemma path_from_root_exists:
  assumes "parents_earlier ss"
  shows "a < length ss \<Longrightarrow> \<exists>p. path_from_root ss p a"
proof (induction a rule: less_induct)
  case (less a)
  have la: "lookup ss a = Some (ss ! a)" using less.prems by (simp add: lookup_def)
  show ?case
  proof (cases "parentSuite (ss ! a)")
    case None
    with la show ?thesis by (blast intro: path_from_root.root)
  next
    case (Some p)
    with assms less.prems have "p < a" by (auto simp: parents_earlier_iff)
    with less obtain ps where "path_from_root ss ps p" by fastforce
    with la Some show ?thesis by (blast intro: path_from_root.child)
  qed
qed

lemma getFullName_path:
  "path_from_root ss p a \<Longrightarrow> getFullName ss a = Some (full_name_spec ss p)"
  by (simp add: getFullName_def getFullName_loop_path full_name_spec_def)

lemma getFullName_no_parent:
  "lookup ss a = Some s \<Longrightarrow> parentSuite s = None \<Longrightarrow> getFullName ss a = Some []"
  by (simp add: getFullName_def getFullName_loop_Some getFullName_loop_None)

lemma getFullName_child_of_root:
  "lookup ss a = Some s \<Longrightarrow> parentSuite s = Some p \<Longrightarrow> lookup ss p = Some r \<Longrightarrow>
   parentSuite r = None \<Longrightarrow> getFullName ss a = Some (description s)"
  by (simp add: getFullName_def getFullName_loop_Some getFullName_loop_None)

lemma getFullName_grandchild_of_root:
  "lookup ss a = Some s \<Longrightarrow> parentSuite s = Some p \<Longrightarrow> lookup ss p = Some t \<Longrightarrow>
   parentSuite t = Some q \<Longrightarrow> lookup ss q = Some r \<Longrightarrow> parentSuite r = None \<Longrightarrow>
   getFullName ss a = Some (description t @ '' '' @ description s)"
  by (simp add: getFullName_def getFullName_loop_Some getFullName_loop_None)

text \<open>
  Claim C1. In a store whose parent references point to earlier suites (every store that
  constructor calls build is one), every suite has a path from the tree root, and \<open>getFullName\<close> returns the descriptions of the nodes
  on that path that have a parent, from the root down, joined by one space. A root
  returns the empty string, a child of the root its own description, and a grandchild
  the child's description, a space, and its own.
\<close>

theorem getFullName_root_to_leaf:
  assumes "parents_earlier ss" and "a < length ss"
  shows "(\<exists>p. path_from_root ss p a) \<and>
         (\<forall>p. path_from_root ss p a \<longrightarrow> getFullName ss a = Some (full_name_spec ss p)) \<and>
         (parentSuite (ss ! a) = None \<longrightarrow> getFullName ss a = Some '''') \<and>
         (\<forall>p. parentSuite (ss ! a) = Some p \<and> parentSuite (ss ! p) = None \<longrightarrow>
            getFullName ss a = Some (description (ss ! a))) \<and>
         (\<forall>p q. parentSuite (ss ! a) = Some p \<and> parentSuite (ss ! p) = Some q \<and>
            parentSuite (ss ! q) = None \<longrightarrow>
            getFullName ss a = Some (description (ss ! p) @ '' '' @ description (ss ! a)))"
proof (intro conjI allI impI)
  show "\<exists>p. path_from_root ss p a" using assms by (rule path_from_root_exists)
next
  fix p assume "path_from_root ss p a"
  then show "getFullName ss a = Some (full_name_spec ss p)" by (rule getFullName_path)
next
  assume "parentSuite (ss ! a) = None"
  with assms(2) show "getFullName ss a = Some ''''"
    by (simp add: getFullName_no_parent lookup_Some_iff)
next
  fix p assume h: "parentSuite (ss ! a) = Some p \<and> parentSuite (ss ! p) = None"
  with assms have "p < a" by (auto simp: parents_earlier_iff)
  with h assms(2) show "getFullName ss a = Some (description (ss ! a))"
    by (intro getFullName_child_of_root[where p = p and r = "ss ! p"])
       (simp_all add: lookup_Some_iff)
next
  fix p q
  assume h: "parentSuite (ss ! a) = Some p \<and> parentSuite (ss ! p) = Some q \<and>
             parentSuite (ss ! q) = None"
  with assms have "p < a" by (auto simp: parents_earlier_iff)
  moreover from this assms(2) have "p < length ss" by simp
  with h assms(1) have "q < p" by (simp add: parents_earlier_iff)
  ultimately show "getFullName ss a = Some (description (ss ! p) @ '' '' @ description (ss ! a))"
    using h assms(2)
    by (intro getFullName_grandchild_of_root[where p = p and q = q and r = "ss ! q"])
       (simp_all add: lookup_Some_iff)
qed

lemma run_calculator_events: "run empty_store calculator_events = Some calculator_store"
  by (simp add: calculator_events_def calculator_store_def calculator_suites_def
      constructed_def empty_store_def example_attrs_def Suite_def Let_def getFullName_def
      getFullName_loop_Some getFullName_loop_None lookup_def)

lemma parents_earlier_calculator: "parents_earlier calculator_suites"
  by (simp add: parents_earlier_def calculator_suites_def constructed_def)

theorem getFullName_root_to_leaf_witness:
  "parents_earlier calculator_suites \<and> 2 < length calculator_suites \<and>
   path_from_root calculator_suites [0, 1, 2] 2 \<and>
   full_name_spec calculator_suites [0, 1, 2] = ''Calculator add'' \<and>
   getFullName calculator_suites 2 = Some ''Calculator add'' \<and>
   getFullName calculator_suites 1 = Some ''Calculator'' \<and>
   getFullName calculator_suites 0 = Some ''''"
proof -
  have pe: "parents_earlier calculator_suites" by (rule parents_earlier_calculator)
  have len: "length calculator_suites = 3" by (simp add: calculator_suites_def)
  have p0: "path_from_root calculator_suites [0] 0"
    by (rule path_from_root.root[where s = "calculator_suites ! 0"])
       (simp_all add: lookup_def calculator_suites_def constructed_def)
  have p1: "path_from_root calculator_suites ([0] @ [1]) 1"
    by (rule path_from_root.child[where s = "calculator_suites ! 1" and p = 0, OF _ _ p0])
       (simp_all add: lookup_def calculator_suites_def constructed_def)
  have p2: "path_from_root calculator_suites (([0] @ [1]) @ [2]) 2"
    by (rule path_from_root.child[where s = "calculator_suites ! 2" and p = 1, OF _ _ p1])
       (simp_all add: lookup_def calculator_suites_def constructed_def)
  have spec: "full_name_spec calculator_suites [0, 1, 2] = ''Calculator add''"
    by (simp add: full_name_spec_def has_parent_def description_of_def lookup_def
        calculator_suites_def constructed_def)
  have g2: "getFullName calculator_suites 2 = Some (full_name_spec calculator_suites [0, 1, 2])"
    using getFullName_root_to_leaf[OF pe, of 2] p2 len by simp
  have g1: "getFullName calculator_suites 1 = Some ''Calculator''"
    using getFullName_root_to_leaf[OF pe, of 1] len
    by (simp add: calculator_suites_def constructed_def)
  have g0: "getFullName calculator_suites 0 = Some ''''"
    using getFullName_root_to_leaf[OF pe, of 0] len
    by (simp add: calculator_suites_def constructed_def)
  from pe len p2 spec g2 g1 g0 show ?thesis by simp
qed

section \<open>Hook registration\<close>

lemma register_all_snoc: "register_all s (regs @ [r]) = register (register_all s regs) r"
  by (simp add: register_all_def)

lemma register_beforeAllFns:
  "beforeAllFns (register s r) =
     beforeAllFns s @ (if fst r = BeforeAllMethod then [snd r] else [])"
  by (cases "(s, r)" rule: register.cases)
     (simp_all add: beforeEach_def beforeAll_def afterEach_def afterAll_def)

lemma register_afterAllFns:
  "afterAllFns (register s r) =
     (if fst r = AfterAllMethod then [snd r] else []) @ afterAllFns s"
  by (cases "(s, r)" rule: register.cases)
     (simp_all add: beforeEach_def beforeAll_def afterEach_def afterAll_def)

lemma register_beforeFns:
  "beforeFns (register s r) =
     (if fst r = BeforeEachMethod then [snd r] else []) @ beforeFns s"
  by (cases "(s, r)" rule: register.cases)
     (simp_all add: beforeEach_def beforeAll_def afterEach_def afterAll_def)

lemma register_afterFns:
  "afterFns (register s r) =
     (if fst r = AfterEachMethod then [snd r] else []) @ afterFns s"
  by (cases "(s, r)" rule: register.cases)
     (simp_all add: beforeEach_def beforeAll_def afterEach_def afterAll_def)

lemma register_all_beforeAllFns:
  "beforeAllFns (register_all s regs) = beforeAllFns s @ declared BeforeAllMethod regs"
  by (induction regs rule: rev_induct)
     (simp_all add: register_all_snoc register_beforeAllFns declared_def register_all_def)

lemma register_all_afterAllFns:
  "afterAllFns (register_all s regs) = rev (declared AfterAllMethod regs) @ afterAllFns s"
  by (induction regs rule: rev_induct)
     (simp_all add: register_all_snoc register_afterAllFns declared_def register_all_def)

lemma register_all_beforeFns:
  "beforeFns (register_all s regs) = rev (declared BeforeEachMethod regs) @ beforeFns s"
  by (induction regs rule: rev_induct)
     (simp_all add: register_all_snoc register_beforeFns declared_def register_all_def)

lemma register_all_afterFns:
  "afterFns (register_all s regs) = rev (declared AfterEachMethod regs) @ afterFns s"
  by (induction regs rule: rev_induct)
     (simp_all add: register_all_snoc register_afterFns declared_def register_all_def)

text \<open>
  Claim C5. After any sequence of registrations, \<open>beforeAllFns\<close> holds the old hooks
  followed by the \<^verbatim>\<open>beforeAll\<close> hooks in declaration order, and each of \<open>afterAllFns\<close>,
  \<open>beforeFns\<close> and \<open>afterFns\<close> holds its method's hooks in reverse declaration order
  followed by the old ones. One registration makes its own list one longer and leaves
  the other three lists as they were.
\<close>

theorem hook_registration_order:
  "beforeAllFns (register_all s regs) = beforeAllFns s @ declared BeforeAllMethod regs \<and>
   afterAllFns (register_all s regs) = rev (declared AfterAllMethod regs) @ afterAllFns s \<and>
   beforeFns (register_all s regs) = rev (declared BeforeEachMethod regs) @ beforeFns s \<and>
   afterFns (register_all s regs) = rev (declared AfterEachMethod regs) @ afterFns s \<and>
   beforeAllFns (beforeAll s fn) = beforeAllFns s @ [fn] \<and>
   afterAllFns (beforeAll s fn) = afterAllFns s \<and>
   beforeFns (beforeAll s fn) = beforeFns s \<and>
   afterFns (beforeAll s fn) = afterFns s \<and>
   afterAllFns (afterAll s fn) = fn # afterAllFns s \<and>
   beforeAllFns (afterAll s fn) = beforeAllFns s \<and>
   beforeFns (afterAll s fn) = beforeFns s \<and>
   afterFns (afterAll s fn) = afterFns s \<and>
   beforeFns (beforeEach s fn) = fn # beforeFns s \<and>
   beforeAllFns (beforeEach s fn) = beforeAllFns s \<and>
   afterAllFns (beforeEach s fn) = afterAllFns s \<and>
   afterFns (beforeEach s fn) = afterFns s \<and>
   afterFns (afterEach s fn) = fn # afterFns s \<and>
   beforeAllFns (afterEach s fn) = beforeAllFns s \<and>
   afterAllFns (afterEach s fn) = afterAllFns s \<and>
   beforeFns (afterEach s fn) = beforeFns s"
  by (simp add: register_all_beforeAllFns register_all_afterAllFns register_all_beforeFns
      register_all_afterFns beforeEach_def beforeAll_def afterEach_def afterAll_def)

section \<open>Re-entry\<close>

lemma Suite_Some:
  assumes "Suite st attrs = Some (a, st')"
  shows "a = length (suites st)" and "length (suites st') = Suc (length (suites st))"
    and "beforeAllFns (suites st' ! a) = []" and "afterAllFns (suites st' ! a) = []"
    and "beforeFns (suites st' ! a) = []" and "afterFns (suites st' ! a) = []"
    and "parentSuite (suites st' ! a) = attr_parentSuite attrs"
    and "description (suites st' ! a) = attr_description attrs"
    and "markedPending (suites st' ! a) = False"
    and "sharedContext (suites st' ! a) = None"
    and "contexts st' = contexts st"
    and "take a (suites st') = suites st"
  using assms by (auto simp: Suite_def Let_def split: option.splits)

text \<open>
  Claim C9. \<open>canBeReentered\<close> holds exactly when \<open>beforeAllFns\<close> and \<open>afterAllFns\<close>
  are both empty. It holds for a suite as the constructor leaves it, fails after one
  \<^verbatim>\<open>beforeAll\<close> or \<^verbatim>\<open>afterAll\<close> registration, and is not changed by \<^verbatim>\<open>beforeEach\<close> or
  \<^verbatim>\<open>afterEach\<close>.
\<close>

theorem canBeReentered_iff:
  "(canBeReentered s \<longleftrightarrow> beforeAllFns s = [] \<and> afterAllFns s = []) \<and>
   (Suite st attrs = Some (a, st') \<longrightarrow> canBeReentered (suites st' ! a)) \<and>
   \<not> canBeReentered (beforeAll s fn) \<and>
   \<not> canBeReentered (afterAll s fn) \<and>
   canBeReentered (beforeEach s fn) = canBeReentered s \<and>
   canBeReentered (afterEach s fn) = canBeReentered s"
  by (auto simp: canBeReentered_def beforeEach_def beforeAll_def afterEach_def afterAll_def
      Suite_Some)

lemma Suite_top:
  "Suite empty_store (example_attrs ''Jasmine__TopLevel__Suite'' None JUndefined) =
     Some (0, \<lparr>suites = [constructed ''Jasmine__TopLevel__Suite'' None False ''''],
               contexts = []\<rparr>)"
  by (simp add: empty_store_def example_attrs_def Suite_def Let_def getFullName_def
      getFullName_loop_Some getFullName_loop_None lookup_def constructed_def)

theorem canBeReentered_iff_witness:
  "Suite empty_store (example_attrs ''Jasmine__TopLevel__Suite'' None JUndefined) =
     Some (0, \<lparr>suites = [constructed ''Jasmine__TopLevel__Suite'' None False ''''],
               contexts = []\<rparr>) \<and>
   canBeReentered (constructed ''Jasmine__TopLevel__Suite'' None False '''') \<and>
   \<not> canBeReentered
       (beforeAll (constructed ''Jasmine__TopLevel__Suite'' None False '''') (example_hook 1)) \<and>
   \<not> canBeReentered
       (afterAll (constructed ''Jasmine__TopLevel__Suite'' None False '''') (example_hook 1)) \<and>
   canBeReentered
       (beforeEach (constructed ''Jasmine__TopLevel__Suite'' None False '''') (example_hook 1)) \<and>
   canBeReentered
       (afterEach (constructed ''Jasmine__TopLevel__Suite'' None False '''') (example_hook 1))"
  using canBeReentered_iff
    [of "constructed ''Jasmine__TopLevel__Suite'' None False ''''" empty_store
        "example_attrs ''Jasmine__TopLevel__Suite'' None JUndefined" 0
        "\<lparr>suites = [constructed ''Jasmine__TopLevel__Suite'' None False ''''], contexts = []\<rparr>"
        "example_hook 1"]
    Suite_top
  by (simp add: constructed_def)

section \<open>Cleanup\<close>

lemma removeFns_loop_eq:
  "removeFns_loop i qs =
     take i qs @ map (\<lambda>q. set_prop q ''fn'' JNull) (drop i qs)"
proof (induction i qs rule: removeFns_loop.induct)
  case (1 i qs)
  show ?case
  proof (cases "i < length qs")
    case True
    let ?f = "\<lambda>q. set_prop q ''fn'' JNull"
    have "removeFns_loop i qs = removeFns_loop (i + 1) (qs[i := ?f (qs ! i)])"
      using True by (subst removeFns_loop.simps) simp
    also have "\<dots> = take (i + 1) (qs[i := ?f (qs ! i)]) @ map ?f (drop (i + 1) (qs[i := ?f (qs ! i)]))"
      using True by (rule "1.IH")
    also have "take (i + 1) (qs[i := ?f (qs ! i)]) = take i qs @ [?f (qs ! i)]"
      using True by (simp add: take_Suc_conv_app_nth)
    also have "drop (i + 1) (qs[i := ?f (qs ! i)]) = drop (Suc i) qs"
      by simp
    finally show ?thesis
      using True by (simp add: Cons_nth_drop_Suc[symmetric])
  next
    case False
    then show ?thesis by (subst removeFns_loop.simps) simp
  qed
qed

lemma removeFns_eq: "removeFns qs = map (\<lambda>q. set_prop q ''fn'' JNull) qs"
  by (simp add: removeFns_def removeFns_loop_eq)

lemma get_prop_set_prop: "get_prop (set_prop obj key v) key = Some v"
  by (simp add: get_prop_def set_prop_def update_conv')

lemma get_prop_set_prop_other: "k \<noteq> key \<Longrightarrow> get_prop (set_prop obj key v) k = get_prop obj k"
  by (simp add: get_prop_def set_prop_def update_conv')

lemma cleanupBeforeAfter_eq:
  "cleanupBeforeAfter s =
     s\<lparr>beforeFns := removeFns (beforeFns s), afterFns := removeFns (afterFns s),
       beforeAllFns := removeFns (beforeAllFns s), afterAllFns := removeFns (afterAllFns s)\<rparr>"
  by (simp add: cleanupBeforeAfter_def Let_def)

text \<open>
  Claim C8. \<open>cleanupBeforeAfter\<close> sets the \<^verbatim>\<open>fn\<close> property of every hook in the four
  hook lists to \<^verbatim>\<open>null\<close>, keeps every other property of every hook and the length of
  each list, and changes no other field of the suite: not the children, not the result
  record, not the shared context. The context objects in the store stay as they are.
\<close>

theorem cleanupBeforeAfter_clears_fns:
  "beforeAllFns (cleanupBeforeAfter s) = map (\<lambda>q. set_prop q ''fn'' JNull) (beforeAllFns s) \<and>
   afterAllFns (cleanupBeforeAfter s) = map (\<lambda>q. set_prop q ''fn'' JNull) (afterAllFns s) \<and>
   beforeFns (cleanupBeforeAfter s) = map (\<lambda>q. set_prop q ''fn'' JNull) (beforeFns s) \<and>
   afterFns (cleanupBeforeAfter s) = map (\<lambda>q. set_prop q ''fn'' JNull) (afterFns s) \<and>
   (\<forall>q \<in> set (beforeAllFns (cleanupBeforeAfter s)) \<union> set (afterAllFns (cleanupBeforeAfter s)) \<union>
          set (beforeFns (cleanupBeforeAfter s)) \<union> set (afterFns (cleanupBeforeAfter s)).
      get_prop q ''fn'' = Some JNull) \<and>
   length (beforeAllFns (cleanupBeforeAfter s)) = length (beforeAllFns s) \<and>
   length (afterAllFns (cleanupBeforeAfter s)) = length (afterAllFns s) \<and>
   length (beforeFns (cleanupBeforeAfter s)) = length (beforeFns s) \<and>
   length (afterFns (cleanupBeforeAfter s)) = length (afterFns s) \<and>
   children (cleanupBeforeAfter s) = children s \<and>
   result (cleanupBeforeAfter s) = result s \<and>
   sharedContext (cleanupBeforeAfter s) = sharedContext s \<and>
   map_option contexts (exec st this CleanupBeforeAfter) =
     map_option (\<lambda>t. contexts st) (lookup (suites st) this) \<and>
   cleanupBeforeAfter s =
     s\<lparr>beforeFns := beforeFns (cleanupBeforeAfter s),
       afterFns := afterFns (cleanupBeforeAfter s),
       beforeAllFns := beforeAllFns (cleanupBeforeAfter s),
       afterAllFns := afterAllFns (cleanupBeforeAfter s)\<rparr>"
  by (auto simp: cleanupBeforeAfter_eq removeFns_eq get_prop_set_prop on_receiver_def
      split: option.splits)

theorem cleanupBeforeAfter_clears_fns_witness:
  "beforeAllFns (cleanupBeforeAfter (register_all (calculator_suites ! 1)
      [(BeforeAllMethod, example_hook 1), (AfterEachMethod, example_hook 2),
       (BeforeAllMethod, example_hook 3)])) =
     [[(''fn'', JNull), (''timeout'', JNum 5000)], [(''fn'', JNull), (''timeout'', JNum 5000)]] \<and>
   afterFns (cleanupBeforeAfter (register_all (calculator_suites ! 1)
      [(BeforeAllMethod, example_hook 1), (AfterEachMethod, example_hook 2),
       (BeforeAllMethod, example_hook 3)])) =
     [[(''fn'', JNull), (''timeout'', JNum 5000)]] \<and>
   map (\<lambda>q. get_prop q ''fn'')
     (beforeAllFns (cleanupBeforeAfter (register_all (calculator_suites ! 1)
        [(BeforeAllMethod, example_hook 1), (AfterEachMethod, example_hook 2),
         (BeforeAllMethod, example_hook 3)]))) = [Some JNull, Some JNull]"
  using cleanupBeforeAfter_clears_fns [of "register_all (calculator_suites ! 1)
      [(BeforeAllMethod, example_hook 1), (AfterEachMethod, example_hook 2),
       (BeforeAllMethod, example_hook 3)]"]
  by (simp add: register_all_def beforeAll_def afterEach_def calculator_suites_def
      constructed_def example_hook_def set_prop_def get_prop_def)

section \<open>Recording expectation results and exceptions\<close>

text \<open>
  Claim C10. \<open>addExpectationResult\<close> called with a truthy first argument returns
  normally and leaves the suite exactly as it was, also when
  \<open>throwOnExpectationFailure\<close> is set; the store after the call is the store before it.
\<close>

theorem addExpectationResult_truthy_noop:
  "(truthy (arg args 0) \<longrightarrow> addExpectationResult s args = (Normal, s)) \<and>
   (truthy passed \<longrightarrow> addExpectationResult s [passed, data] = (Normal, s)) \<and>
   (truthy passed \<and> lookup (suites st) this = Some s \<longrightarrow>
      exec st this (AddExpectationResult [passed, data]) = Some st)"
  by (auto simp: addExpectationResult_def isFailure_def arg_def on_receiver_def lookup_def
      split: if_splits)

theorem addExpectationResult_truthy_noop_witness:
  "truthy (JBool True) \<and> throwOnExpectationFailure (calculator_suites ! 2) \<and>
   lookup (suites calculator_store) 2 = Some (calculator_suites ! 2) \<and>
   addExpectationResult (calculator_suites ! 2) [JBool True, JStr ''data''] =
     (Normal, calculator_suites ! 2) \<and>
   exec calculator_store 2 (AddExpectationResult [JBool True, JStr ''data'']) =
     Some calculator_store"
  using addExpectationResult_truthy_noop
     [of "[JBool True, JStr ''data'']" "calculator_suites ! 2" "JBool True" "JStr ''data''"
         calculator_store 2]
  by (simp add: arg_def calculator_store_def calculator_suites_def constructed_def lookup_def)

lemma instanceof_ExpectationFailed_iff:
  "instanceof_ExpectationFailed v \<longleftrightarrow> v = JExpectationFailed"
  by (cases v) simp_all

lemma onException_signal: "onException s [JExpectationFailed] = s"
  by (simp add: onException_def arg_def)

text \<open>
  Claim C2. \<open>addExpectationResult\<close> called with a falsy first argument appends exactly
  one entry, the factory applied to the second argument, to \<open>failedExpectations\<close> and
  changes nothing else; it then throws the \<open>ExpectationFailed\<close> signal if
  \<open>throwOnExpectationFailure\<close> is set and returns normally if it is not. Passing the
  signal to \<open>onException\<close> afterwards leaves the suite as it is.
\<close>

theorem addExpectationResult_failure:
  assumes "\<not> truthy passed"
  shows "snd (addExpectationResult s [passed, data]) =
           s\<lparr>result := (result s)\<lparr>failedExpectations :=
             failedExpectations (result s) @ [expectationResultFactory s data]\<rparr>\<rparr> \<and>
         fst (addExpectationResult s [passed, data]) =
           (if throwOnExpectationFailure s then Throw JExpectationFailed else Normal) \<and>
         (\<forall>e. fst (addExpectationResult s [passed, data]) = Throw e \<longrightarrow>
            onException (snd (addExpectationResult s [passed, data])) [e] =
              snd (addExpectationResult s [passed, data]))"
  using assms
  by (auto simp: addExpectationResult_def isFailure_def arg_def Let_def onException_signal)

theorem addExpectationResult_failure_witness:
  "\<not> truthy (JNum 0) \<and>
   fst (addExpectationResult (calculator_suites ! 2) [JNum 0, JStr ''data'']) =
     Throw JExpectationFailed \<and>
   failedExpectations (result (snd
     (addExpectationResult (calculator_suites ! 2) [JNum 0, JStr ''data'']))) =
     [[(''normalized'', JStr ''data'')]] \<and>
   failedExpectations (result (onException (snd
     (addExpectationResult (calculator_suites ! 2) [JNum 0, JStr ''data'']))
     [JExpectationFailed])) =
     [[(''normalized'', JStr ''data'')]]"
proof -
  define s where "s = calculator_suites ! 2"
  have f: "\<not> truthy (JNum 0)" by simp
  have s: "throwOnExpectationFailure s" "failedExpectations (result s) = []"
    "expectationResultFactory s (JStr ''data'') = [(''normalized'', JStr ''data'')]"
    by (simp_all add: s_def calculator_suites_def constructed_def example_factory_def)
  note t = addExpectationResult_failure [OF f, of s "JStr ''data''"]
  from t s have 1: "fst (addExpectationResult s [JNum 0, JStr ''data'']) = Throw JExpectationFailed"
    by simp
  from t s have 2: "failedExpectations (result (snd
      (addExpectationResult s [JNum 0, JStr ''data'']))) = [[(''normalized'', JStr ''data'')]]"
    by simp
  from t 1 have 3: "onException (snd (addExpectationResult s [JNum 0, JStr ''data'']))
      [JExpectationFailed] = snd (addExpectationResult s [JNum 0, JStr ''data''])"
    by blast
  from f 1 2 3 show ?thesis unfolding s_def by simp
qed

text \<open>
  Claim C4. \<open>onException\<close> given the \<open>ExpectationFailed\<close> signal leaves the suite as it
  is. Given anything else it appends exactly one entry to \<open>failedExpectations\<close> and
  changes nothing else: the entry is the factory applied to the record with empty
  \<^verbatim>\<open>matcherName\<close>, \<^verbatim>\<open>expected\<close> and \<^verbatim>\<open>actual\<close> and the thrown value as \<^verbatim>\<open>error\<close>; for a
  suite without a parent its \<^verbatim>\<open>globalErrorType\<close> is then set to \<^verbatim>\<open>'afterAll'\<close> (the
  method is told nothing about the phase that threw), for a suite with a parent the
  entry is what the factory returned.
\<close>

theorem onException_records:
  "(err = JExpectationFailed \<longrightarrow> onException s [err] = s) \<and>
   (err \<noteq> JExpectationFailed \<longrightarrow>
      onException s [err] =
        s\<lparr>result := (result s)\<lparr>failedExpectations :=
          failedExpectations (result s) @
            [if parentSuite s = None
             then set_prop
                    (expectationResultFactory s
                      (JObj [(''matcherName'', JStr ''''), (''passed'', JBool False),
                             (''expected'', JStr ''''), (''actual'', JStr ''''),
                             (''error'', err)]))
                    ''globalErrorType'' (JStr ''afterAll'')
             else expectationResultFactory s
                    (JObj [(''matcherName'', JStr ''''), (''passed'', JBool False),
                           (''expected'', JStr ''''), (''actual'', JStr ''''),
                           (''error'', err)])]\<rparr>\<rparr>) \<and>
   (err \<noteq> JExpectationFailed \<and> parentSuite s = None \<longrightarrow>
      get_prop (last (failedExpectations (result (onException s [err])))) ''globalErrorType'' =
        Some (JStr ''afterAll'') \<and>
      (\<forall>k. k \<noteq> ''globalErrorType'' \<longrightarrow>
         get_prop (last (failedExpectations (result (onException s [err])))) k =
         get_prop (expectationResultFactory s
                    (JObj [(''matcherName'', JStr ''''), (''passed'', JBool False),
                           (''expected'', JStr ''''), (''actual'', JStr ''''),
                           (''error'', err)])) k)) \<and>
   (err \<noteq> JExpectationFailed \<and> parentSuite s \<noteq> None \<longrightarrow>
      last (failedExpectations (result (onException s [err]))) =
        expectationResultFactory s
          (JObj [(''matcherName'', JStr ''''), (''passed'', JBool False),
                 (''expected'', JStr ''''), (''actual'', JStr ''''),
                 (''error'', err)]))"
  by (auto simp: onException_def arg_def Let_def instanceof_ExpectationFailed_iff
      get_prop_set_prop get_prop_set_prop_other)

theorem onException_records_witness:
  "onException (calculator_suites ! 0) [JExpectationFailed] = calculator_suites ! 0 \<and>
   JError ''boom'' \<noteq> JExpectationFailed \<and>
   parentSuite (calculator_suites ! 0) = None \<and>
   failedExpectations (result (onException (calculator_suites ! 0) [JError ''boom''])) =
     [[(''normalized'',
        JObj [(''matcherName'', JStr ''''), (''passed'', JBool False),
              (''expected'', JStr ''''), (''actual'', JStr ''''),
              (''error'', JError ''boom'')]),
       (''globalErrorType'', JStr ''afterAll'')]] \<and>
   parentSuite (calculator_suites ! 1) \<noteq> None \<and>
   failedExpectations (result (onException (calculator_suites ! 1) [JError ''boom''])) =
     [[(''normalized'',
        JObj [(''matcherName'', JStr ''''), (''passed'', JBool False),
              (''expected'', JStr ''''), (''actual'', JStr ''''),
              (''error'', JError ''boom'')])]]"
  using onException_records [of JExpectationFailed "calculator_suites ! 0"]
        onException_records [of "JError ''boom''" "calculator_suites ! 0"]
        onException_records [of "JError ''boom''" "calculator_suites ! 1"]
  by (simp add: calculator_suites_def constructed_def example_factory_def set_prop_def)

section \<open>The shared user context\<close>

lemma sharedUserContext_existing:
  "lookup (suites st) this = Some s \<Longrightarrow> sharedContext s = Some c \<Longrightarrow>
   sharedUserContext st this = Some (c, st)"
  by (subst sharedUserContext.simps) simp

lemma sharedUserContext_root:
  "lookup (suites st) this = Some s \<Longrightarrow> sharedContext s = None \<Longrightarrow> parentSuite s = None \<Longrightarrow>
   sharedUserContext st this =
     Some (length (contexts st),
           set_sharedContext (st\<lparr>contexts := contexts st @ [[]]\<rparr>) this (length (contexts st)))"
  by (subst sharedUserContext.simps) (simp add: new_UserContext_def)

text \<open>The equation in the shape of the source: a suite with a parent and no context yet
  takes \<^verbatim>\<open>this.parentSuite.clonedSharedUserContext()\<close>.\<close>

lemma sharedUserContext_child:
  "lookup (suites st) this = Some s \<Longrightarrow> sharedContext s = None \<Longrightarrow> parentSuite s = Some p \<Longrightarrow>
   sharedUserContext st this =
     Option.bind (clonedSharedUserContext st p)
       (\<lambda>(c, st2). Some (c, set_sharedContext st2 this c))"
  by (subst sharedUserContext.simps)
     (simp add: clonedSharedUserContext_def split: Option.bind_split prod.splits)

lemma contexts_exist_iff:
  "contexts_exist st \<longleftrightarrow>
     (\<forall>b < length (suites st). \<forall>c. sharedContext (suites st ! b) = Some c \<longrightarrow>
        c < length (contexts st))"
  by (auto simp: contexts_exist_def list_all_length split: option.splits)

lemma only_contexts_set_refl: "only_contexts_set a st st"
  by (simp add: only_contexts_set_def)

lemma only_contexts_set_later:
  "only_contexts_set p st st' \<Longrightarrow> p \<le> a \<Longrightarrow> only_contexts_set a st st'"
  by (auto simp: only_contexts_set_def)

lemma only_contexts_set_trans:
  assumes "only_contexts_set a st st1" and "only_contexts_set a st1 st2"
  shows "only_contexts_set a st st2"
proof -
  have len: "length (suites st1) = length (suites st)" "length (suites st2) = length (suites st)"
    using assms by (simp_all add: only_contexts_set_def)
  have ctx: "length (contexts st) \<le> length (contexts st1)"
    "length (contexts st1) \<le> length (contexts st2)"
    "take (length (contexts st)) (contexts st1) = contexts st"
    "take (length (contexts st1)) (contexts st2) = contexts st1"
    using assms by (simp_all add: only_contexts_set_def)
  have "take (length (contexts st)) (contexts st2) =
        take (length (contexts st)) (take (length (contexts st1)) (contexts st2))"
    using ctx(1) by (simp add: min_def)
  with ctx have take: "take (length (contexts st)) (contexts st2) = contexts st" by simp
  have "suites st2 ! b = (suites st ! b)\<lparr>sharedContext := sharedContext (suites st2 ! b)\<rparr> \<and>
        (sharedContext (suites st ! b) \<noteq> None \<or> a < b \<longrightarrow>
           sharedContext (suites st2 ! b) = sharedContext (suites st ! b))"
    if b: "b < length (suites st)" for b
  proof -
    from assms(1) b have 1:
      "suites st1 ! b = (suites st ! b)\<lparr>sharedContext := sharedContext (suites st1 ! b)\<rparr>"
      "sharedContext (suites st ! b) \<noteq> None \<or> a < b \<longrightarrow>
         sharedContext (suites st1 ! b) = sharedContext (suites st ! b)"
      by (simp_all add: only_contexts_set_def)
    from assms(2) b len have 2:
      "suites st2 ! b = (suites st1 ! b)\<lparr>sharedContext := sharedContext (suites st2 ! b)\<rparr>"
      "sharedContext (suites st1 ! b) \<noteq> None \<or> a < b \<longrightarrow>
         sharedContext (suites st2 ! b) = sharedContext (suites st1 ! b)"
      by (simp_all add: only_contexts_set_def)
    have "suites st2 ! b = (suites st ! b)\<lparr>sharedContext := sharedContext (suites st2 ! b)\<rparr>"
      by (subst 2(1), subst 1(1)) simp
    moreover have "sharedContext (suites st ! b) \<noteq> None \<or> a < b \<longrightarrow>
           sharedContext (suites st2 ! b) = sharedContext (suites st ! b)"
      using 1(2) 2(2) by auto
    ultimately show ?thesis by simp
  qed
  with len ctx take show ?thesis by (simp add: only_contexts_set_def)
qed

lemma assign_fresh_context:
  fixes ps :: js_object
  assumes wf: "well_formed st" and a: "a < length (suites st)"
    and none: "sharedContext (suites st ! a) = None"
  defines "st' \<equiv> set_sharedContext (st\<lparr>contexts := contexts st @ [ps]\<rparr>) a (length (contexts st))"
  shows "well_formed st'" and "only_contexts_set a st st'"
    and "sharedContext (suites st' ! a) = Some (length (contexts st))"
    and "contexts st' = contexts st @ [ps]"
    and "\<And>b. b \<noteq> a \<Longrightarrow> suites st' ! b = suites st ! b"
proof -
  have suites': "suites st' =
      (suites st)[a := (suites st ! a)\<lparr>sharedContext := Some (length (contexts st))\<rparr>]"
    and contexts': "contexts st' = contexts st @ [ps]"
    by (simp_all add: st'_def set_sharedContext_def)
  show "contexts st' = contexts st @ [ps]" by (rule contexts')
  show at_a: "sharedContext (suites st' ! a) = Some (length (contexts st))"
    using a by (simp add: suites')
  show other: "\<And>b. b \<noteq> a \<Longrightarrow> suites st' ! b = suites st ! b"
    by (simp add: suites')
  show "only_contexts_set a st st'"
    using a none by (auto simp: only_contexts_set_def suites' contexts' nth_list_update)
  have pe: "parents_earlier (suites st')"
    using wf a
    by (auto simp: well_formed_def parents_earlier_iff suites' nth_list_update split: if_splits)
  have ce: "contexts_exist st'"
    using wf a
    by (auto simp: well_formed_def contexts_exist_iff suites' contexts' nth_list_update
        less_Suc_eq split: if_splits)
  have ca: "contexts_apart st'"
    unfolding contexts_apart_def
  proof (intro allI impI)
    fix x y
    assume x: "x < length (suites st')" and y: "y < length (suites st')" and xy: "x \<noteq> y"
    from wf have ex: "\<And>b c. b < length (suites st) \<Longrightarrow> sharedContext (suites st ! b) = Some c
        \<Longrightarrow> c < length (contexts st)"
      by (simp add: well_formed_def contexts_exist_iff)
    from wf have ap: "\<And>b c. b < length (suites st) \<Longrightarrow> c < length (suites st) \<Longrightarrow> b \<noteq> c \<Longrightarrow>
        sharedContext (suites st ! b) = None \<or>
        sharedContext (suites st ! b) \<noteq> sharedContext (suites st ! c)"
      by (simp add: well_formed_def contexts_apart_def)
    show "sharedContext (suites st' ! x) = None \<or>
          sharedContext (suites st' ! x) \<noteq> sharedContext (suites st' ! y)"
    proof (cases "x = a")
      case True
      with xy have ya: "y \<noteq> a" by simp
      with y ex[of y] have "sharedContext (suites st' ! y) \<noteq> Some (length (contexts st))"
        by (auto simp: suites')
      with True at_a show ?thesis by simp
    next
      case xa: False
      show ?thesis
      proof (cases "y = a")
        case True
        with x xa ex[of x] at_a show ?thesis by (auto simp: suites')
      next
        case False
        with xa x y xy ap[of x y] show ?thesis by (simp add: suites')
      qed
    qed
  qed
  from pe ce ca show "well_formed st'" by (simp add: well_formed_def)
qed

lemma only_contexts_set_well_formed_parts:
  assumes "only_contexts_set a st st'"
  shows "length (suites st') = length (suites st)"
    and "\<And>b. b < length (suites st) \<Longrightarrow> parentSuite (suites st' ! b) = parentSuite (suites st ! b)"
    and "\<And>b. b < length (suites st) \<Longrightarrow> a < b \<Longrightarrow>
           sharedContext (suites st' ! b) = sharedContext (suites st ! b)"
    and "\<And>b c. b < length (suites st) \<Longrightarrow> sharedContext (suites st ! b) = Some c \<Longrightarrow>
           sharedContext (suites st' ! b) = Some c"
    and "\<And>c. c < length (contexts st) \<Longrightarrow> contexts st' ! c = contexts st ! c"
    and "length (contexts st) \<le> length (contexts st')"
proof -
  show "length (suites st') = length (suites st)"
    and "length (contexts st) \<le> length (contexts st')"
    using assms by (simp_all add: only_contexts_set_def)
  show "parentSuite (suites st' ! b) = parentSuite (suites st ! b)"
    if "b < length (suites st)" for b
  proof -
    from assms that have
      "suites st' ! b = (suites st ! b)\<lparr>sharedContext := sharedContext (suites st' ! b)\<rparr>"
      by (simp add: only_contexts_set_def)
    then have "parentSuite (suites st' ! b) =
      parentSuite ((suites st ! b)\<lparr>sharedContext := sharedContext (suites st' ! b)\<rparr>)"
      by simp
    then show ?thesis by simp
  qed
  show "sharedContext (suites st' ! b) = sharedContext (suites st ! b)"
    if "b < length (suites st)" "a < b" for b
    using assms that by (simp add: only_contexts_set_def)
  show "sharedContext (suites st' ! b) = Some c"
    if "b < length (suites st)" "sharedContext (suites st ! b) = Some c" for b c
    using assms that by (simp add: only_contexts_set_def)
  show "contexts st' ! c = contexts st ! c" if "c < length (contexts st)" for c
  proof -
    from assms have "take (length (contexts st)) (contexts st') = contexts st"
      by (simp add: only_contexts_set_def)
    then have "contexts st ! c = take (length (contexts st)) (contexts st') ! c" by simp
    with that show ?thesis by simp
  qed
qed

text \<open>
  In a well-formed store \<^verbatim>\<open>sharedUserContext\<close> returns. The induction is on the address:
  the parent of a suite was allocated before it.
\<close>

lemma sharedUserContext_total:
  assumes "well_formed st" and "a < length (suites st)"
  shows "\<exists>c st'. sharedUserContext st a = Some (c, st') \<and> well_formed st' \<and>
           only_contexts_set a st st' \<and> sharedContext (suites st' ! a) = Some c \<and>
           (sharedContext (suites st ! a) = None \<longrightarrow>
              Suc c = length (contexts st') \<and> length (contexts st) \<le> c \<and>
              (case parentSuite (suites st ! a) of
                 None \<Rightarrow> contexts st' ! c = []
               | Some p \<Rightarrow>
                   \<exists>pc. sharedContext (suites st' ! p) = Some pc \<and> pc < c \<and>
                        contexts st' ! c = contexts st' ! pc))"
  using assms
proof (induction a arbitrary: st rule: less_induct)
  case (less a)
  note wf = \<open>well_formed st\<close> and a = \<open>a < length (suites st)\<close>
  have la: "lookup (suites st) a = Some (suites st ! a)" using a by (simp add: lookup_def)
  show ?case
  proof (cases "sharedContext (suites st ! a)")
    case (Some c)
    with la have "sharedUserContext st a = Some (c, st)"
      by (simp add: sharedUserContext_existing)
    with wf Some show ?thesis by (simp add: only_contexts_set_refl)
  next
    case None
    show ?thesis
    proof (cases "parentSuite (suites st ! a)")
      case no_parent: None
      let ?st' = "set_sharedContext (st\<lparr>contexts := contexts st @ [[]]\<rparr>) a (length (contexts st))"
      from la None no_parent have "sharedUserContext st a = Some (length (contexts st), ?st')"
        by (simp add: sharedUserContext_root)
      moreover note fresh = assign_fresh_context[where st = st and a = a and ps = "[]", OF wf a None]
      ultimately show ?thesis using no_parent by simp
    next
      case (Some p)
      with wf a have pa: "p < a" by (simp add: well_formed_def parents_earlier_iff)
      with a have p: "p < length (suites st)" by simp
      from less.IH[OF pa wf p] obtain pc st1 where
        call: "sharedUserContext st p = Some (pc, st1)" and wf1: "well_formed st1" and
        only1: "only_contexts_set p st st1" and pc: "sharedContext (suites st1 ! p) = Some pc"
        by (elim exE conjE) (rule that)
      note parts = only_contexts_set_well_formed_parts[OF only1]
      have a1: "a < length (suites st1)" using a parts(1) by simp
      have p1: "p < length (suites st1)" using p parts(1) by simp
      have none1: "sharedContext (suites st1 ! a) = None" using parts(3)[OF a pa] None by simp
      from wf1 p1 pc have pc_ex: "pc < length (contexts st1)"
        by (simp add: well_formed_def contexts_exist_iff)
      let ?c = "length (contexts st1)"
      let ?st' = "set_sharedContext (st1\<lparr>contexts := contexts st1 @ [contexts st1 ! pc]\<rparr>) a ?c"
      from pc_ex have fe: "fromExisting st1 pc =
          Some (?c, st1\<lparr>contexts := contexts st1 @ [contexts st1 ! pc]\<rparr>)"
        by (simp add: fromExisting_def lookup_def)
      have "sharedUserContext st a =
          Option.bind (sharedUserContext st p) (\<lambda>(pc, st1).
          Option.bind (fromExisting st1 pc) (\<lambda>(c, st2).
          Some (c, set_sharedContext st2 a c)))"
        using la None Some by (subst sharedUserContext.simps) simp
      also have "\<dots> = Some (?c, ?st')"
        by (simp add: call fe)
      finally have res: "sharedUserContext st a = Some (?c, ?st')" .
      note fresh = assign_fresh_context[where st = st1 and a = a and ps = "contexts st1 ! pc", OF wf1 a1 none1]
      have "only_contexts_set a st st1"
        by (rule only_contexts_set_later[OF only1]) (use pa in simp)
      then have only: "only_contexts_set a st ?st'"
        using fresh(2) by (rule only_contexts_set_trans)
      have "p \<noteq> a" using pa by simp
      then have "suites ?st' ! p = suites st1 ! p" by (rule fresh(5))
      with pc have at_p: "sharedContext (suites ?st' ! p) = Some pc" by simp
      have copy: "contexts ?st' ! ?c = contexts ?st' ! pc"
        using pc_ex by (simp add: fresh(4) nth_append)
      have fresh_c: "length (contexts st) \<le> ?c" by (rule parts(6))
      have last_c: "Suc ?c = length (contexts ?st')" by (simp add: fresh(4))
      have inner: "\<exists>pc. sharedContext (suites ?st' ! p) = Some pc \<and> pc < ?c \<and>
                        contexts ?st' ! ?c = contexts ?st' ! pc"
        using at_p pc_ex copy by (intro exI[of _ pc] conjI)
      show ?thesis
      proof (intro exI conjI impI)
        show "sharedUserContext st a = Some (?c, ?st')" by (rule res)
        show "well_formed ?st'" by (rule fresh(1))
        show "only_contexts_set a st ?st'" by (rule only)
        show "sharedContext (suites ?st' ! a) = Some ?c" by (rule fresh(3))
        show "Suc ?c = length (contexts ?st')" by (rule last_c)
        show "length (contexts st) \<le> ?c" by (rule fresh_c)
        show "case parentSuite (suites st ! a) of
                 None \<Rightarrow> contexts ?st' ! ?c = []
               | Some p \<Rightarrow>
                   \<exists>pc. sharedContext (suites ?st' ! p) = Some pc \<and> pc < ?c \<and>
                        contexts ?st' ! ?c = contexts ?st' ! pc"
          unfolding Some option.case by (rule inner)
      qed
    qed
  qed
qed

lemma inherited_contents_unique:
  "inherited_contents st a ps \<Longrightarrow> inherited_contents st a qs \<Longrightarrow> ps = qs"
proof (induction arbitrary: qs rule: inherited_contents.induct)
  case (own st a s c ps)
  from own.prems own.hyps show ?case
    by (cases rule: inherited_contents.cases) simp_all
next
  case (empty st a s)
  from empty.prems empty.hyps show ?case
    by (cases rule: inherited_contents.cases) simp_all
next
  case (parent st a s p ps)
  from parent.prems show ?case
  proof (cases rule: inherited_contents.cases)
    case (own s' c)
    with parent.hyps show ?thesis by simp
  next
    case (empty s')
    with parent.hyps show ?thesis by simp
  next
    case (parent s' p')
    with parent.hyps have "p' = p" by simp
    with parent show ?thesis using parent.IH by simp
  qed
qed

lemma path_from_root_last: "path_from_root ss p a \<Longrightarrow> a \<in> set p"
  by (induction rule: path_from_root.induct) simp_all

lemma path_from_root_child_mem:
  assumes "lookup ss a = Some s" and "parentSuite s = Some p"
    and "\<exists>path. path_from_root ss path p \<and> b \<in> set path"
  shows "\<exists>path. path_from_root ss path a \<and> b \<in> set path"
proof -
  from assms(3) obtain path where "path_from_root ss path p" "b \<in> set path" by blast
  with assms(1,2) have "path_from_root ss (path @ [a]) a" "b \<in> set (path @ [a])"
    by (auto intro: path_from_root.child)
  then show ?thesis by blast
qed

text \<open>
  What the call creates, in terms of the store before it: the context returned holds
  the inherited contents, and every suite that is given a context by the call is on the
  path from the root to the receiver and gets a new object with its inherited contents.
\<close>

lemma sharedUserContext_inherits:
  assumes "well_formed st" and "a < length (suites st)"
    and "sharedUserContext st a = Some (c, st')"
  shows "inherited_contents st a (contexts st' ! c) \<and>
         (\<forall>b d. b < length (suites st) \<and> sharedContext (suites st ! b) = None \<and>
                sharedContext (suites st' ! b) = Some d \<longrightarrow>
                length (contexts st) \<le> d \<and>
                (\<exists>path. path_from_root (suites st) path a \<and> b \<in> set path) \<and>
                inherited_contents st b (contexts st' ! d))"
  using assms
proof (induction a arbitrary: st c st' rule: less_induct)
  case (less a)
  note wf = \<open>well_formed st\<close> and a = \<open>a < length (suites st)\<close>
    and call = \<open>sharedUserContext st a = Some (c, st')\<close>
  have la: "lookup (suites st) a = Some (suites st ! a)" using a by (simp add: lookup_def)
  from wf have pe: "parents_earlier (suites st)" by (simp add: well_formed_def)
  from path_from_root_exists[OF pe a] obtain path_a where
    path_a: "path_from_root (suites st) path_a a" by blast
  then have a_on_path: "\<exists>path. path_from_root (suites st) path a \<and> a \<in> set path"
    using path_from_root_last by blast
  show ?case
  proof (cases "sharedContext (suites st ! a)")
    case (Some c0)
    with la have "sharedUserContext st a = Some (c0, st)"
      by (simp add: sharedUserContext_existing)
    with call have eq: "c = c0" "st' = st" by auto
    from wf a Some have "c0 < length (contexts st)"
      by (simp add: well_formed_def contexts_exist_iff)
    then have "lookup (contexts st) c0 = Some (contexts st ! c0)" by (simp add: lookup_def)
    with la Some have "inherited_contents st a (contexts st ! c0)"
      by (rule inherited_contents.own)
    then show ?thesis unfolding eq by auto
  next
    case None
    show ?thesis
    proof (cases "parentSuite (suites st ! a)")
      case no_parent: None
      let ?c = "length (contexts st)"
      let ?st' = "set_sharedContext (st\<lparr>contexts := contexts st @ [[]]\<rparr>) a ?c"
      from la None no_parent have "sharedUserContext st a = Some (?c, ?st')"
        by (simp add: sharedUserContext_root)
      with call have eq: "c = ?c" "st' = ?st'" by auto
      note fresh = assign_fresh_context[where st = st and a = a and ps = "[]", OF wf a None]
      have contents: "contexts ?st' ! ?c = []" by (simp add: fresh(4))
      from la None no_parent have inh: "inherited_contents st a []"
        by (rule inherited_contents.empty)
      have changed: "b = a \<and> d = ?c"
        if "sharedContext (suites st ! b) = None" "sharedContext (suites ?st' ! b) = Some d"
        for b d
      proof -
        have "b = a"
        proof (rule ccontr)
          assume "b \<noteq> a"
          then have "suites ?st' ! b = suites st ! b" by (rule fresh(5))
          with that show False by simp
        qed
        with that(2) fresh(3) show ?thesis by simp
      qed
      show ?thesis
        unfolding eq
      proof (intro conjI allI impI)
        show "inherited_contents st a (contexts ?st' ! ?c)" using inh contents by simp
      next
        fix b d
        assume h: "b < length (suites st) \<and> sharedContext (suites st ! b) = None \<and>
                sharedContext (suites ?st' ! b) = Some d"
        then have bd: "b = a" "d = ?c" using changed[of b d] by simp_all
        show "length (contexts st) \<le> d" using bd by simp
        show "\<exists>path. path_from_root (suites st) path a \<and> b \<in> set path"
          using a_on_path bd by simp
        show "inherited_contents st b (contexts ?st' ! d)"
          using inh contents bd by simp
      qed
    next
      case (Some p)
      with wf a have pa: "p < a" by (simp add: well_formed_def parents_earlier_iff)
      with a have p: "p < length (suites st)" by simp
      from sharedUserContext_total[OF wf p] obtain pc st1 where
        pcall: "sharedUserContext st p = Some (pc, st1)" and wf1: "well_formed st1" and
        only1: "only_contexts_set p st st1" and pc: "sharedContext (suites st1 ! p) = Some pc"
        by (elim exE conjE) (rule that)
      from less.IH[OF pa wf p pcall] have
        inh_p: "inherited_contents st p (contexts st1 ! pc)" and
        changed_p: "\<And>b d. b < length (suites st) \<Longrightarrow> sharedContext (suites st ! b) = None \<Longrightarrow>
                sharedContext (suites st1 ! b) = Some d \<Longrightarrow>
                length (contexts st) \<le> d \<and>
                (\<exists>path. path_from_root (suites st) path p \<and> b \<in> set path) \<and>
                inherited_contents st b (contexts st1 ! d)"
        by simp_all
      note parts = only_contexts_set_well_formed_parts[OF only1]
      have a1: "a < length (suites st1)" using a parts(1) by simp
      have p1: "p < length (suites st1)" using p parts(1) by simp
      have none1: "sharedContext (suites st1 ! a) = None" using parts(3)[OF a pa] None by simp
      from wf1 p1 pc have pc_ex: "pc < length (contexts st1)"
        by (simp add: well_formed_def contexts_exist_iff)
      let ?c = "length (contexts st1)"
      let ?st' = "set_sharedContext (st1\<lparr>contexts := contexts st1 @ [contexts st1 ! pc]\<rparr>) a ?c"
      from pc_ex have fe: "fromExisting st1 pc =
          Some (?c, st1\<lparr>contexts := contexts st1 @ [contexts st1 ! pc]\<rparr>)"
        by (simp add: fromExisting_def lookup_def)
      have "sharedUserContext st a =
          Option.bind (sharedUserContext st p) (\<lambda>(pc, st1).
          Option.bind (fromExisting st1 pc) (\<lambda>(c, st2).
          Some (c, set_sharedContext st2 a c)))"
        using la None Some by (subst sharedUserContext.simps) simp
      also have "\<dots> = Some (?c, ?st')"
        by (simp add: pcall fe)
      finally have "sharedUserContext st a = Some (?c, ?st')" .
      with call have eq: "c = ?c" "st' = ?st'" by auto
      note fresh = assign_fresh_context[where st = st1 and a = a and ps = "contexts st1 ! pc",
          OF wf1 a1 none1]
      have contents: "contexts ?st' ! ?c = contexts st1 ! pc" by (simp add: fresh(4))
      have old: "contexts ?st' ! d = contexts st1 ! d" if "d < length (contexts st1)" for d
        using that by (simp add: fresh(4) nth_append)
      from la None Some inh_p have inh: "inherited_contents st a (contexts st1 ! pc)"
        by (rule inherited_contents.parent)
      have first: "inherited_contents st a (contexts ?st' ! ?c)" using inh contents by simp
      have second: "\<forall>b d. b < length (suites st) \<and> sharedContext (suites st ! b) = None \<and>
                sharedContext (suites ?st' ! b) = Some d \<longrightarrow>
                length (contexts st) \<le> d \<and>
                (\<exists>path. path_from_root (suites st) path a \<and> b \<in> set path) \<and>
                inherited_contents st b (contexts ?st' ! d)"
      proof (intro allI impI)
        fix b d
        assume h: "b < length (suites st) \<and> sharedContext (suites st ! b) = None \<and>
                sharedContext (suites ?st' ! b) = Some d"
        show "length (contexts st) \<le> d \<and>
              (\<exists>path. path_from_root (suites st) path a \<and> b \<in> set path) \<and>
              inherited_contents st b (contexts ?st' ! d)"
        proof (cases "b = a")
          case True
          with h fresh(3) have d: "d = ?c" by simp
          from parts(6) have "length (contexts st) \<le> ?c" .
          with True d a_on_path inh contents show ?thesis by simp
        next
          case False
          then have "suites ?st' ! b = suites st1 ! b" by (rule fresh(5))
          with h have at1: "sharedContext (suites st1 ! b) = Some d" by simp
          from h have b: "b < length (suites st)" and bn: "sharedContext (suites st ! b) = None"
            by simp_all
          note cp = changed_p[OF b bn at1]
          from wf1 at1 b parts(1) have "d < length (contexts st1)"
            by (simp add: well_formed_def contexts_exist_iff)
          then have "contexts ?st' ! d = contexts st1 ! d" by (rule old)
          moreover from cp have "\<exists>path. path_from_root (suites st) path p \<and> b \<in> set path"
            by simp
          with la Some have "\<exists>path. path_from_root (suites st) path a \<and> b \<in> set path"
            by (rule path_from_root_child_mem)
          ultimately show ?thesis using cp by simp
        qed
      qed
      from first second show ?thesis unfolding eq by (rule conjI)
    qed
  qed
qed

section \<open>Histories keep stores well-formed\<close>

lemma path_from_root_bound:
  "path_from_root ss p a \<Longrightarrow> \<forall>b \<in> set p. b < length ss"
  by (induction rule: path_from_root.induct) (auto simp: lookup_Some_iff)

lemma path_from_root_agree:
  "path_from_root ss p a \<Longrightarrow>
   (\<forall>b < length ss. b < length ss' \<and> parentSuite (ss' ! b) = parentSuite (ss ! b)) \<Longrightarrow>
   path_from_root ss' p a"
proof (induction rule: path_from_root.induct)
  case (root ss a s)
  then have "lookup ss' a = Some (ss' ! a)" "parentSuite (ss' ! a) = None"
    by (auto simp: lookup_def split: if_splits)
  then show ?case by (rule path_from_root.root)
next
  case (child ss a s p ps)
  then have "lookup ss' a = Some (ss' ! a)" "parentSuite (ss' ! a) = Some p"
    by (auto simp: lookup_def split: if_splits)
  moreover have "path_from_root ss' ps p" using child by simp
  ultimately show ?case by (rule path_from_root.child)
qed

lemma full_name_spec_agree:
  assumes "\<And>b. b < length ss \<Longrightarrow> b < length ss' \<and> parentSuite (ss' ! b) = parentSuite (ss ! b) \<and>
             description (ss' ! b) = description (ss ! b)"
    and "\<forall>b \<in> set p. b < length ss"
  shows "full_name_spec ss' p = full_name_spec ss p"
proof -
  have same: "has_parent ss' b = has_parent ss b \<and> description_of ss' b = description_of ss b"
    if "b \<in> set p" for b
    using assms(1)[of b] assms(2) that by (simp add: has_parent_def description_of_def lookup_def)
  have "filter (has_parent ss') p = filter (has_parent ss) p"
    by (rule filter_cong) (simp_all add: same)
  moreover have "map (description_of ss') (filter (has_parent ss) p) =
         map (description_of ss) (filter (has_parent ss) p)"
    by (rule map_cong) (simp_all add: same)
  ultimately show ?thesis unfolding full_name_spec_def by (simp only:)
qed

lemma getFullName_agree:
  assumes "parents_earlier ss" and "a < length ss"
    and "\<And>b. b < length ss \<Longrightarrow> b < length ss' \<and> parentSuite (ss' ! b) = parentSuite (ss ! b) \<and>
             description (ss' ! b) = description (ss ! b)"
  shows "getFullName ss' a = getFullName ss a"
proof -
  from assms(1,2) obtain p where p: "path_from_root ss p a"
    using path_from_root_exists by blast
  then have "path_from_root ss' p a"
    by (rule path_from_root_agree) (use assms(3) in simp)
  then have "getFullName ss' a = Some (full_name_spec ss' p)" by (rule getFullName_path)
  also have "full_name_spec ss' p = full_name_spec ss p"
    using assms(3) path_from_root_bound[OF p] by (rule full_name_spec_agree)
  also have "Some (full_name_spec ss p) = getFullName ss a"
    using getFullName_path[OF p] by simp
  finally show ?thesis .
qed

lemma same_identity_refl: "same_identity s s"
  by (simp add: same_identity_def)

lemma same_identity_trans: "same_identity s t \<Longrightarrow> same_identity t u \<Longrightarrow> same_identity s u"
  by (simp add: same_identity_def)

lemma evolves_refl: "evolves st st"
  by (simp add: evolves_def same_identity_refl)

lemma evolves_trans: "evolves st st1 \<Longrightarrow> evolves st1 st2 \<Longrightarrow> evolves st st2"
proof -
  assume 1: "evolves st st1" and 2: "evolves st1 st2"
  have "same_identity (suites st ! b) (suites st2 ! b)" if "b < length (suites st)" for b
  proof -
    from 1 that have "same_identity (suites st ! b) (suites st1 ! b)" "b < length (suites st1)"
      by (simp_all add: evolves_def)
    moreover from 2 this(2) have "same_identity (suites st1 ! b) (suites st2 ! b)"
      by (simp add: evolves_def)
    ultimately show ?thesis by (blast intro: same_identity_trans)
  qed
  moreover from 1 2 have "length (suites st) \<le> length (suites st2)"
    by (simp add: evolves_def)
  ultimately show ?thesis by (simp add: evolves_def)
qed

lemma full_names_cached_evolves:
  assumes "full_names_cached st" and "parents_earlier (suites st)" and "evolves st st'"
    and "length (suites st') = length (suites st)"
  shows "full_names_cached st'"
  unfolding full_names_cached_def
proof (intro allI impI)
  fix a assume "a < length (suites st')"
  with assms(4) have a: "a < length (suites st)" by simp
  have agree: "b < length (suites st') \<and>
        parentSuite (suites st' ! b) = parentSuite (suites st ! b) \<and>
        description (suites st' ! b) = description (suites st ! b)"
    if "b < length (suites st)" for b
    using assms(3,4) that by (simp add: evolves_def same_identity_def)
  have "getFullName (suites st') a = getFullName (suites st) a"
    using assms(2) a agree by (rule getFullName_agree)
  also have "\<dots> = Some (fullName (result (suites st ! a)))"
    using assms(1) a by (simp add: full_names_cached_def)
  also have "fullName (result (suites st ! a)) = fullName (result (suites st' ! a))"
    using assms(3) a by (simp add: evolves_def same_identity_def)
  finally show "getFullName (suites st') a = Some (fullName (result (suites st' ! a)))" .
qed

lemma getFullName_Some_bound: "getFullName ss a = Some n \<Longrightarrow> a < length ss"
  by (subst (asm) getFullName_def, subst (asm) getFullName_loop.simps)
     (auto simp: lookup_def split: if_splits)

lemma exec_receiver_only:
  assumes "exec st this c = Some st'" and "c \<noteq> SharedUserContext"
    and "c \<noteq> ClonedSharedUserContext"
  shows "this < length (suites st) \<and>
         st' = st\<lparr>suites := (suites st)[this := suites st' ! this]\<rparr> \<and>
         same_identity (suites st ! this) (suites st' ! this) \<and>
         sharedContext (suites st' ! this) = sharedContext (suites st ! this)"
proof -
  have receiver: ?thesis
    if "on_receiver st this f = Some st'"
      and "\<And>s. same_identity s (f s) \<and> sharedContext (f s) = sharedContext s" for f
    using that by (auto simp: on_receiver_def lookup_def split: if_splits)
  have same: ?thesis if "st' = st" and "this < length (suites st)"
    using that by (simp add: same_identity_refl)
  show ?thesis
  proof (cases c)
    case (SetSuiteProperty key v)
    with assms(1) show ?thesis
      by (intro receiver[where f = "\<lambda>s. setSuiteProperty s key v"])
         (simp_all add: setSuiteProperty_def same_identity_def)
  next
    case GetFullName
    with assms(1) show ?thesis by (intro same) (auto dest: getFullName_Some_bound)
  next
    case Pend
    with assms(1) show ?thesis
      by (intro receiver[where f = pend]) (simp_all add: pend_def same_identity_def)
  next
    case (BeforeEach fn)
    with assms(1) show ?thesis
      by (intro receiver[where f = "\<lambda>s. beforeEach s fn"])
         (simp_all add: beforeEach_def same_identity_def)
  next
    case (BeforeAll fn)
    with assms(1) show ?thesis
      by (intro receiver[where f = "\<lambda>s. beforeAll s fn"])
         (simp_all add: beforeAll_def same_identity_def)
  next
    case (AfterEach fn)
    with assms(1) show ?thesis
      by (intro receiver[where f = "\<lambda>s. afterEach s fn"])
         (simp_all add: afterEach_def same_identity_def)
  next
    case (AfterAll fn)
    with assms(1) show ?thesis
      by (intro receiver[where f = "\<lambda>s. afterAll s fn"])
         (simp_all add: afterAll_def same_identity_def)
  next
    case StartTimer
    with assms(1) show ?thesis
      by (intro receiver[where f = startTimer]) (simp_all add: startTimer_def same_identity_def)
  next
    case (EndTimer elapsed)
    with assms(1) show ?thesis
      by (intro receiver[where f = "\<lambda>s. endTimer s elapsed"])
         (simp_all add: endTimer_def same_identity_def)
  next
    case CleanupBeforeAfter
    with assms(1) show ?thesis
      by (intro receiver[where f = cleanupBeforeAfter])
         (simp_all add: cleanupBeforeAfter_eq same_identity_def)
  next
    case (AddChild ch)
    with assms(1) show ?thesis
      by (intro receiver[where f = "\<lambda>s. addChild s ch"])
         (simp_all add: addChild_def same_identity_def)
  next
    case Status
    with assms(1) show ?thesis
      by (intro receiver[where f = "\<lambda>s. s"]) (simp_all add: same_identity_def)
  next
    case CanBeReentered
    with assms(1) show ?thesis
      by (intro receiver[where f = "\<lambda>s. s"]) (simp_all add: same_identity_def)
  next
    case GetResult
    with assms(1) show ?thesis
      by (intro receiver[where f = "\<lambda>s. snd (getResult s)"])
         (simp_all add: getResult_def Let_def same_identity_def)
  next
    case SharedUserContext
    with assms(2) show ?thesis by simp
  next
    case ClonedSharedUserContext
    with assms(3) show ?thesis by simp
  next
    case (OnException args)
    with assms(1) show ?thesis
      by (intro receiver[where f = "\<lambda>s. onException s args"])
         (simp_all add: onException_def Let_def same_identity_def)
  next
    case OnMultipleDone
    with assms(1) show ?thesis
      by (intro same) (auto simp: onMultipleDone_def lookup_def split: if_splits)
  next
    case (AddExpectationResult args)
    with assms(1) show ?thesis
      by (intro receiver[where f = "\<lambda>s. snd (addExpectationResult s args)"])
         (simp_all add: addExpectationResult_def Let_def same_identity_def)
  next
    case (AddDeprecationWarning d)
    with assms(1) show ?thesis
      by (intro receiver[where f = "\<lambda>s. addDeprecationWarning s d"])
         (simp_all add: addDeprecationWarning_def Let_def same_identity_def)
  qed
qed

lemma update_receiver_consistent:
  fixes s' :: suite
  assumes wf: "well_formed st" and cached: "full_names_cached st"
    and bound: "this < length (suites st)"
    and same: "same_identity (suites st ! this) s'"
    and ctx: "sharedContext s' = sharedContext (suites st ! this)"
  defines "st' \<equiv> st\<lparr>suites := (suites st)[this := s']\<rparr>"
  shows "well_formed st'" and "full_names_cached st'" and "evolves st st'"
proof -
  have nth: "suites st' ! b = (if b = this then s' else suites st ! b)"
    if "b < length (suites st)" for b
    using that bound by (simp add: st'_def nth_list_update)
  have len: "length (suites st') = length (suites st)" by (simp add: st'_def)
  have ctxs: "contexts st' = contexts st" by (simp add: st'_def)
  have sc: "sharedContext (suites st' ! b) = sharedContext (suites st ! b)"
    and ps: "parentSuite (suites st' ! b) = parentSuite (suites st ! b)"
    if "b < length (suites st)" for b
    using that nth[OF that] ctx same by (simp_all add: same_identity_def)
  show ev: "evolves st st'"
    using same by (simp add: evolves_def len nth same_identity_refl)
  have "parents_earlier (suites st')"
    using wf by (simp add: well_formed_def parents_earlier_iff len ps)
  moreover have "contexts_exist st'"
    using wf by (simp add: well_formed_def contexts_exist_iff len ctxs sc)
  moreover have "contexts_apart st'"
    using wf by (simp add: well_formed_def contexts_apart_def len sc)
  ultimately show "well_formed st'" by (simp add: well_formed_def)
  show "full_names_cached st'"
    using cached _ ev len by (rule full_names_cached_evolves) (use wf in \<open>simp add: well_formed_def\<close>)
qed

lemma parents_earlier_append:
  assumes "parents_earlier ss"
    and "case parentSuite s of None \<Rightarrow> True | Some p \<Rightarrow> p < length ss"
  shows "parents_earlier (ss @ [s])"
  using assms
  by (auto simp: parents_earlier_iff nth_append less_Suc_eq split: option.splits)

lemma append_suite_consistent:
  fixes s :: suite
  assumes wf: "well_formed st" and cached: "full_names_cached st"
    and parent: "case parentSuite s of None \<Rightarrow> True | Some p \<Rightarrow> p < length (suites st)"
    and ctx: "sharedContext s = None"
    and name: "getFullName (suites st @ [s]) (length (suites st)) = Some (fullName (result s))"
  defines "st' \<equiv> st\<lparr>suites := suites st @ [s]\<rparr>"
  shows "well_formed st'" and "full_names_cached st'" and "evolves st st'"
proof -
  have suites': "suites st' = suites st @ [s]" and ctxs: "contexts st' = contexts st"
    by (simp_all add: st'_def)
  from wf have pe: "parents_earlier (suites st)" by (simp add: well_formed_def)
  have pe': "parents_earlier (suites st')"
    unfolding suites' using pe parent by (rule parents_earlier_append)
  have ce': "contexts_exist st'"
    using wf ctx
    by (auto simp: well_formed_def contexts_exist_iff suites' ctxs nth_append less_Suc_eq)
  have ca': "contexts_apart st'"
    using wf ctx
    by (auto simp: well_formed_def contexts_apart_def suites' nth_append less_Suc_eq)
  from pe' ce' ca' show "well_formed st'" by (simp add: well_formed_def)
  show "evolves st st'"
    by (simp add: evolves_def suites' nth_append same_identity_refl)
  show "full_names_cached st'"
    unfolding full_names_cached_def
  proof (intro allI impI)
    fix a assume "a < length (suites st')"
    then consider "a < length (suites st)" | "a = length (suites st)"
      by (auto simp: suites' less_Suc_eq)
    then show "getFullName (suites st') a = Some (fullName (result (suites st' ! a)))"
    proof cases
      case 1
      have "getFullName (suites st') a = getFullName (suites st) a"
        using pe 1 by (rule getFullName_agree) (simp add: suites' nth_append)
      with cached 1 show ?thesis by (simp add: full_names_cached_def suites' nth_append)
    next
      case 2
      with name show ?thesis by (simp add: suites')
    qed
  qed
qed

lemma Suite_consistent:
  assumes wf: "well_formed st" and cached: "full_names_cached st"
    and parent: "case attr_parentSuite attrs of None \<Rightarrow> True | Some p \<Rightarrow> p < length (suites st)"
  shows "\<exists>st'. Suite st attrs = Some (length (suites st), st') \<and> well_formed st' \<and>
           full_names_cached st' \<and> evolves st st'"
proof -
  define s where "s =
     \<lparr>suite_id = attr_id attrs,
      parentSuite = attr_parentSuite attrs,
      description = attr_description attrs,
      expectationResultFactory = attr_expectationResultFactory attrs,
      throwOnExpectationFailure = truthy (attr_throwOnExpectationFailure attrs),
      beforeFns = [], afterFns = [], beforeAllFns = [], afterAllFns = [],
      children = [],
      result = no_result,
      markedPending = False,
      sharedContext = None\<rparr>"
  define this where "this = length (suites st)"
  have s_parent: "parentSuite s = attr_parentSuite attrs"
    and s_ctx: "sharedContext s = None"
    by (simp_all add: s_def)
  from wf have pe: "parents_earlier (suites st)" by (simp add: well_formed_def)
  have pe1: "parents_earlier (suites st @ [s])"
    using pe parent by (intro parents_earlier_append) (simp_all add: s_parent)
  then obtain p where "path_from_root (suites st @ [s]) p this"
    using path_from_root_exists[of "suites st @ [s]" this] by (auto simp: this_def)
  then have "getFullName (suites st @ [s]) this = Some (full_name_spec (suites st @ [s]) p)"
    by (rule getFullName_path)
  then obtain n where n: "getFullName (suites st @ [s]) this = Some n" by blast
  define r where "r =
     \<lparr>result_id = suite_id s, result_description = description s, fullName = n,
      failedExpectations = [], deprecationWarnings = [], duration = None,
      properties = None, result_status = None\<rparr>"
  let ?st' = "st\<lparr>suites := suites st @ [s\<lparr>result := r\<rparr>]\<rparr>"
  have "Suite st attrs =
      (case getFullName (suites st @ [s]) this of
         None \<Rightarrow> None
       | Some n \<Rightarrow> Some (this, st\<lparr>suites := (suites st @ [s])[this := s\<lparr>result :=
            \<lparr>result_id = suite_id s, result_description = description s, fullName = n,
             failedExpectations = [], deprecationWarnings = [], duration = None,
             properties = None, result_status = None\<rparr>\<rparr>]\<rparr>))"
    unfolding Suite_def Let_def s_def this_def ..
  also have "\<dots> = Some (this, ?st')"
    by (simp add: n[unfolded this_def] r_def this_def)
  finally have res: "Suite st attrs = Some (length (suites st), ?st')"
    by (simp add: this_def)
  have "getFullName (suites st @ [s\<lparr>result := r\<rparr>]) this = getFullName (suites st @ [s]) this"
    using pe1 by (rule getFullName_agree) (auto simp: this_def nth_append)
  with n have name: "getFullName (suites st @ [s\<lparr>result := r\<rparr>]) (length (suites st)) =
      Some (fullName (result (s\<lparr>result := r\<rparr>)))"
    by (simp add: this_def r_def)
  have parent': "case parentSuite (s\<lparr>result := r\<rparr>) of None \<Rightarrow> True
      | Some p \<Rightarrow> p < length (suites st)"
    using parent by (simp add: s_parent)
  have ctx': "sharedContext (s\<lparr>result := r\<rparr>) = None" by (simp add: s_ctx)
  note append_suite_consistent[OF wf cached parent' ctx' name]
  with res show ?thesis by blast
qed

lemma only_contexts_set_evolves: "only_contexts_set a st st' \<Longrightarrow> evolves st st'"
proof -
  assume o: "only_contexts_set a st st'"
  have "same_identity (suites st ! b) (suites st' ! b)" if "b < length (suites st)" for b
  proof -
    from o that have
      "suites st' ! b = (suites st ! b)\<lparr>sharedContext := sharedContext (suites st' ! b)\<rparr>"
      by (simp add: only_contexts_set_def)
    then have "same_identity (suites st ! b) (suites st' ! b) =
      same_identity (suites st ! b)
        ((suites st ! b)\<lparr>sharedContext := sharedContext (suites st' ! b)\<rparr>)"
      by simp
    then show ?thesis by (simp add: same_identity_def)
  qed
  with o show ?thesis by (simp add: evolves_def only_contexts_set_def)
qed

lemma sharedUserContext_Some_bound:
  "sharedUserContext st a = Some r \<Longrightarrow> a < length (suites st)"
  by (subst (asm) sharedUserContext.simps) (auto simp: lookup_def split: if_splits)

lemma sharedUserContext_consistent:
  assumes "well_formed st" and "full_names_cached st" and "sharedUserContext st a = Some (c, st')"
  shows "well_formed st'" and "full_names_cached st'" and "evolves st st'"
    and "c < length (contexts st')"
proof -
  from assms(3) have a: "a < length (suites st)" by (rule sharedUserContext_Some_bound)
  from sharedUserContext_total[OF assms(1) a] assms(3)
  have wf': "well_formed st'" and only: "only_contexts_set a st st'"
    and at: "sharedContext (suites st' ! a) = Some c"
    by auto
  show "well_formed st'" by (rule wf')
  show ev: "evolves st st'" using only by (rule only_contexts_set_evolves)
  from only have len: "length (suites st') = length (suites st)"
    by (simp add: only_contexts_set_def)
  show "full_names_cached st'"
    using assms(2) _ ev len
    by (rule full_names_cached_evolves) (use assms(1) in \<open>simp add: well_formed_def\<close>)
  show "c < length (contexts st')"
    using wf' at a len by (simp add: well_formed_def contexts_exist_iff)
qed

lemma more_contexts_consistent:
  assumes "well_formed st" and "full_names_cached st"
    and "suites st' = suites st" and "length (contexts st) \<le> length (contexts st')"
  shows "well_formed st'" and "full_names_cached st'" and "evolves st st'"
proof -
  show "well_formed st'"
    using assms(1,3,4)
    by (auto simp: well_formed_def contexts_exist_iff contexts_apart_def)
  show "full_names_cached st'"
    using assms(2,3) by (simp add: full_names_cached_def)
  show "evolves st st'"
    using assms(3) by (simp add: evolves_def same_identity_refl)
qed

lemma exec_consistent:
  assumes wf: "well_formed st" and cached: "full_names_cached st"
    and exec: "exec st this c = Some st'"
  shows "well_formed st' \<and> full_names_cached st' \<and> evolves st st'"
proof (cases "c = SharedUserContext \<or> c = ClonedSharedUserContext")
  case False
  with exec have r: "this < length (suites st)"
    "st' = st\<lparr>suites := (suites st)[this := suites st' ! this]\<rparr>"
    "same_identity (suites st ! this) (suites st' ! this)"
    "sharedContext (suites st' ! this) = sharedContext (suites st ! this)"
    using exec_receiver_only[of st this c st'] by simp_all
  note update_receiver_consistent[OF wf cached r(1) r(3) r(4)]
  with r(2) show ?thesis by simp
next
  case True
  then show ?thesis
  proof
    assume "c = SharedUserContext"
    with exec obtain k where "sharedUserContext st this = Some (k, st')" by auto
    from sharedUserContext_consistent[OF wf cached this] show ?thesis by simp
  next
    assume "c = ClonedSharedUserContext"
    with exec obtain k st1 k' where 1: "sharedUserContext st this = Some (k, st1)"
      and 2: "fromExisting st1 k = Some (k', st')"
      by (auto simp: clonedSharedUserContext_def split: Option.bind_splits)
    note c1 = sharedUserContext_consistent[OF wf cached 1]
    from 2 have "suites st' = suites st1" "length (contexts st1) \<le> length (contexts st')"
      by (auto simp: fromExisting_def split: option.splits)
    note c2 = more_contexts_consistent[OF c1(1) c1(2) this]
    from c1(3) c2(3) have "evolves st st'" by (rule evolves_trans)
    with c2 show ?thesis by simp
  qed
qed

lemma step_consistent:
  assumes wf: "well_formed st" and cached: "full_names_cached st"
    and step: "step st e = Some st'"
  shows "well_formed st' \<and> full_names_cached st' \<and> evolves st st'"
proof (cases e)
  case (New attrs)
  with step have parent:
    "case attr_parentSuite attrs of None \<Rightarrow> True | Some p \<Rightarrow> p < length (suites st)"
    and res: "map_option snd (Suite st attrs) = Some st'"
    by (simp_all split: if_splits)
  from Suite_consistent[OF wf cached parent] res show ?thesis by auto
next
  case (Call this c)
  with step have "exec st this c = Some st'" by simp
  with wf cached show ?thesis by (rule exec_consistent)
next
  case (ContextAssign c key v)
  with step have "st' = context_assign st c key v" by (simp split: if_splits)
  then have "suites st' = suites st" "length (contexts st) \<le> length (contexts st')"
    by (simp_all add: context_assign_def)
  from more_contexts_consistent[OF wf cached this] show ?thesis by simp
qed

lemma run_consistent:
  "well_formed st \<Longrightarrow> full_names_cached st \<Longrightarrow> run st es = Some st' \<Longrightarrow>
   well_formed st' \<and> full_names_cached st' \<and> evolves st st'"
proof (induction es arbitrary: st)
  case Nil
  then show ?case by (simp add: evolves_refl)
next
  case (Cons e es)
  from Cons.prems(3) obtain st1 where 1: "step st e = Some st1" and 2: "run st1 es = Some st'"
    by (auto split: option.splits)
  from step_consistent[OF Cons.prems(1,2) 1]
  have s: "well_formed st1" "full_names_cached st1" "evolves st st1" by simp_all
  from Cons.IH[OF s(1,2) 2] s(3) show ?case by (blast intro: evolves_trans)
qed

lemma empty_store_consistent: "well_formed empty_store" "full_names_cached empty_store"
  by (simp_all add: well_formed_def parents_earlier_def contexts_exist_def contexts_apart_def
      full_names_cached_def empty_store_def)

lemma reachable_consistent:
  assumes "run empty_store es = Some st"
  shows "well_formed st" and "full_names_cached st"
  using run_consistent[OF empty_store_consistent assms] by simp_all

section \<open>Status\<close>

lemma run_append:
  "run st (es @ es') = (case run st es of None \<Rightarrow> None | Some st1 \<Rightarrow> run st1 es')"
  by (induction es arbitrary: st) (simp_all split: option.splits)

lemma run_keeps_pending:
  assumes "run empty_store es = Some st" and "lookup (suites st) a = Some s"
    and "markedPending s" and "run st es' = Some st'"
  shows "\<exists>s'. lookup (suites st') a = Some s' \<and> markedPending s'"
proof -
  note c = reachable_consistent[OF assms(1)]
  from run_consistent[OF c assms(4)] have "evolves st st'" by simp
  moreover from assms(2) have "a < length (suites st)" "suites st ! a = s"
    by (simp_all add: lookup_Some_iff)
  ultimately have "a < length (suites st')" "same_identity s (suites st' ! a)"
    by (auto simp: evolves_def)
  with assms(3) show ?thesis by (simp add: lookup_def same_identity_def)
qed

text \<open>
  Claim C3. \<open>status\<close> is \<^verbatim>\<open>'pending'\<close> when \<open>markedPending\<close> is set, whatever
  \<open>failedExpectations\<close> holds; otherwise \<^verbatim>\<open>'failed'\<close> when \<open>failedExpectations\<close> is not
  empty, otherwise \<^verbatim>\<open>'passed'\<close>. After \<open>pend\<close> it stays \<^verbatim>\<open>'pending'\<close> when
  \<open>addExpectationResult\<close> is called. In a history of constructor calls, method calls
  and context writes, a suite that is pending stays pending.
\<close>

theorem status_precedence:
  "status s =
     (if markedPending s then ''pending''
      else if failedExpectations (result s) \<noteq> [] then ''failed'' else ''passed'') \<and>
   status (pend s) = ''pending'' \<and>
   status (snd (addExpectationResult (pend s) args)) = ''pending'' \<and>
   (run empty_store es = Some st \<and> lookup (suites st) a = Some t \<and> markedPending t \<and>
    run st es' = Some st' \<longrightarrow>
      (\<exists>t'. lookup (suites st') a = Some t' \<and> markedPending t' \<and> status t' = ''pending''))"
proof (intro conjI impI)
  show "status s =
     (if markedPending s then ''pending''
      else if failedExpectations (result s) \<noteq> [] then ''failed'' else ''passed'')"
    by (simp add: status_def)
  show "status (pend s) = ''pending''" by (simp add: status_def pend_def)
  show "status (snd (addExpectationResult (pend s) args)) = ''pending''"
    by (simp add: status_def pend_def addExpectationResult_def Let_def)
next
  assume h: "run empty_store es = Some st \<and> lookup (suites st) a = Some t \<and> markedPending t \<and>
    run st es' = Some st'"
  then obtain t' where "lookup (suites st') a = Some t'" "markedPending t'"
    using run_keeps_pending[of es st a t es' st'] by blast
  then show "\<exists>t'. lookup (suites st') a = Some t' \<and> markedPending t' \<and> status t' = ''pending''"
    by (simp add: status_def)
qed

lemma run_pend_calculator:
  "run empty_store (calculator_events @ [Call 1 Pend]) =
     Some (calculator_store\<lparr>suites := calculator_suites[1 := pend (calculator_suites ! 1)]\<rparr>)"
  by (simp add: run_append run_calculator_events on_receiver_def lookup_def
      calculator_store_def calculator_suites_def)

theorem status_precedence_witness:
  "run empty_store (calculator_events @ [Call 1 Pend]) =
     Some (calculator_store\<lparr>suites := calculator_suites[1 := pend (calculator_suites ! 1)]\<rparr>) \<and>
   run (calculator_store\<lparr>suites := calculator_suites[1 := pend (calculator_suites ! 1)]\<rparr>)
     [Call 1 (AddExpectationResult [JBool False, JStr ''data''])] =
     Some (calculator_store\<lparr>suites := calculator_suites[1 :=
       snd (addExpectationResult (pend (calculator_suites ! 1)) [JBool False, JStr ''data''])]\<rparr>) \<and>
   failedExpectations (result
     (snd (addExpectationResult (pend (calculator_suites ! 1)) [JBool False, JStr ''data'']))) =
     [[(''normalized'', JStr ''data'')]] \<and>
   markedPending
     (snd (addExpectationResult (pend (calculator_suites ! 1)) [JBool False, JStr ''data''])) \<and>
   status
     (snd (addExpectationResult (pend (calculator_suites ! 1)) [JBool False, JStr ''data''])) =
     ''pending''"
proof -
  let ?st = "calculator_store\<lparr>suites := calculator_suites[1 := pend (calculator_suites ! 1)]\<rparr>"
  let ?t = "pend (calculator_suites ! 1)"
  let ?t' = "snd (addExpectationResult ?t [JBool False, JStr ''data''])"
  let ?st' = "calculator_store\<lparr>suites := calculator_suites[1 := ?t']\<rparr>"
  have 1: "run empty_store (calculator_events @ [Call 1 Pend]) = Some ?st"
    by (rule run_pend_calculator)
  have 2: "lookup (suites ?st) 1 = Some ?t"
    by (simp add: lookup_def calculator_suites_def)
  have 3: "markedPending ?t" by (simp add: pend_def)
  have 4: "run ?st [Call 1 (AddExpectationResult [JBool False, JStr ''data''])] = Some ?st'"
    by (simp add: on_receiver_def lookup_def calculator_suites_def)
  have 5: "lookup (suites ?st') 1 = Some ?t'"
    by (simp add: lookup_def calculator_suites_def)
  from status_precedence
    [of ?t "[JBool False, JStr ''data'']" "calculator_events @ [Call 1 Pend]" ?st 1 ?t
        "[Call 1 (AddExpectationResult [JBool False, JStr ''data''])]" ?st']
    1 2 3 4
  have "\<exists>t'. lookup (suites ?st') 1 = Some t' \<and> markedPending t' \<and> status t' = ''pending''"
    by blast
  with 5 have 6: "markedPending ?t'" "status ?t' = ''pending''" by auto
  have 7: "failedExpectations (result ?t') = [[(''normalized'', JStr ''data'')]]"
    by (simp add: addExpectationResult_def isFailure_def arg_def Let_def pend_def
        calculator_suites_def constructed_def example_factory_def)
  from 1 4 6 7 show ?thesis by simp
qed

section \<open>The cached full name\<close>



section \<open>Context snapshots\<close>

lemma context_assign_other:
  "d \<noteq> c \<Longrightarrow> contexts (context_assign st d key v) ! c = contexts st ! c"
  by (simp add: context_assign_def)

lemma context_assign_suites: "suites (context_assign st d key v) = suites st"
  by (simp add: context_assign_def)

text \<open>
  Claim C6. In a well-formed store \<open>sharedUserContext\<close> returns a context \<open>c\<close> that is
  then the suite's stored context. If the suite had a context, that one is returned
  and the store is unchanged. If it had none, \<open>c\<close> is newly allocated: empty for a suite
  without a parent, and for a suite with a parent a different object from the parent's
  context with the contents the parent's context has at that moment. Calling again
  returns \<open>c\<close> and changes nothing. \<open>clonedSharedUserContext\<close> returns a newly allocated
  context with the contents of \<open>c\<close>, which later writes to \<open>c\<close> do not reach. A write
  to the context of any other suite, the parent included, leaves the contents of \<open>c\<close>
  as they were and \<open>c\<close> the suite's context.

  Against the store before the call: every context object that existed keeps its
  contents, the suites change in \<open>sharedContext\<close> only, and a suite that had a context
  keeps it. The contents of \<open>c\<close> are the inherited contents of the suite in the store
  before the call; for a suite whose parent had a context, these are the contents that
  the parent's context had before the call, and the parent's context is left as it was.
  Every suite that the call gives a context lies on the path from the root to the
  receiver and gets a newly allocated object holding its inherited contents.
\<close>

theorem sharedUserContext_lazy_snapshot:
  assumes "well_formed st" and "lookup (suites st) a = Some s"
  shows "\<exists>c st1.
           sharedUserContext st a = Some (c, st1) \<and>
           sharedContext (suites st1 ! a) = Some c \<and> c < length (contexts st1) \<and>
           (\<forall>c0. sharedContext s = Some c0 \<longrightarrow> c = c0 \<and> st1 = st) \<and>
           (sharedContext s = None \<longrightarrow>
              length (contexts st) \<le> c \<and>
              (parentSuite s = None \<longrightarrow> contexts st1 ! c = []) \<and>
              (\<forall>p. parentSuite s = Some p \<longrightarrow>
                 (\<exists>pc. sharedContext (suites st1 ! p) = Some pc \<and> pc \<noteq> c \<and>
                       contexts st1 ! c = contexts st1 ! pc))) \<and>
           sharedUserContext st1 a = Some (c, st1) \<and>
           clonedSharedUserContext st a =
             Some (length (contexts st1), st1\<lparr>contexts := contexts st1 @ [contexts st1 ! c]\<rparr>) \<and>
           (\<forall>key v.
              contexts (context_assign (st1\<lparr>contexts := contexts st1 @ [contexts st1 ! c]\<rparr>)
                c key v) ! length (contexts st1) = contexts st1 ! c) \<and>
           (\<forall>b d key v.
              b < length (suites st1) \<and> b \<noteq> a \<and> sharedContext (suites st1 ! b) = Some d \<longrightarrow>
              contexts (context_assign st1 d key v) ! c = contexts st1 ! c \<and>
              sharedUserContext (context_assign st1 d key v) a =
                Some (c, context_assign st1 d key v)) \<and>
           only_contexts_set a st st1 \<and>
           take (length (contexts st)) (contexts st1) = contexts st \<and>
           (\<exists>ps. inherited_contents st a ps) \<and>
           (\<forall>ps. inherited_contents st a ps \<longrightarrow> contexts st1 ! c = ps) \<and>
           (\<forall>p pc0.
              sharedContext s = None \<and> parentSuite s = Some p \<and>
              sharedContext (suites st ! p) = Some pc0 \<longrightarrow>
              sharedContext (suites st1 ! p) = Some pc0 \<and>
              contexts st1 ! pc0 = contexts st ! pc0 \<and>
              contexts st1 ! c = contexts st ! pc0) \<and>
           (\<forall>b d.
              b < length (suites st) \<and> sharedContext (suites st ! b) = None \<and>
              sharedContext (suites st1 ! b) = Some d \<longrightarrow>
              length (contexts st) \<le> d \<and>
              (\<exists>path. path_from_root (suites st) path a \<and> b \<in> set path) \<and>
              (\<forall>ps. inherited_contents st b ps \<longrightarrow> contexts st1 ! d = ps))"
proof -
  from assms(2) have a: "a < length (suites st)" and s: "suites st ! a = s"
    by (simp_all add: lookup_Some_iff)
  from sharedUserContext_total[OF assms(1) a] obtain c st1 where
    call: "sharedUserContext st a = Some (c, st1)" and wf1: "well_formed st1" and
    only: "only_contexts_set a st st1" and at: "sharedContext (suites st1 ! a) = Some c" and
    fresh: "sharedContext (suites st ! a) = None \<longrightarrow>
              Suc c = length (contexts st1) \<and> length (contexts st) \<le> c \<and>
              (case parentSuite (suites st ! a) of
                 None \<Rightarrow> contexts st1 ! c = []
               | Some p \<Rightarrow>
                   \<exists>pc. sharedContext (suites st1 ! p) = Some pc \<and> pc < c \<and>
                        contexts st1 ! c = contexts st1 ! pc)"
    by (elim exE conjE) (rule that)
  from only have len: "length (suites st1) = length (suites st)"
    by (simp add: only_contexts_set_def)
  with a have a1: "a < length (suites st1)" by simp
  then have la1: "lookup (suites st1) a = Some (suites st1 ! a)" by (simp add: lookup_def)
  from wf1 a1 at have c: "c < length (contexts st1)"
    by (simp add: well_formed_def contexts_exist_iff)
  have existing: "\<forall>c0. sharedContext s = Some c0 \<longrightarrow> c = c0 \<and> st1 = st"
  proof (intro allI impI)
    fix c0 assume "sharedContext s = Some c0"
    with assms(2) have "sharedUserContext st a = Some (c0, st)"
      by (rule sharedUserContext_existing)
    with call show "c = c0 \<and> st1 = st" by simp
  qed
  have created: "sharedContext s = None \<longrightarrow>
              length (contexts st) \<le> c \<and>
              (parentSuite s = None \<longrightarrow> contexts st1 ! c = []) \<and>
              (\<forall>p. parentSuite s = Some p \<longrightarrow>
                 (\<exists>pc. sharedContext (suites st1 ! p) = Some pc \<and> pc \<noteq> c \<and>
                       contexts st1 ! c = contexts st1 ! pc))"
    using fresh unfolding s by (cases "parentSuite s") auto
  have again: "sharedUserContext st1 a = Some (c, st1)"
    using la1 at by (rule sharedUserContext_existing)
  have cloned: "clonedSharedUserContext st a =
      Some (length (contexts st1), st1\<lparr>contexts := contexts st1 @ [contexts st1 ! c]\<rparr>)"
    using c by (simp add: clonedSharedUserContext_def call fromExisting_def lookup_def)
  have clone_apart: "\<forall>key v.
      contexts (context_assign (st1\<lparr>contexts := contexts st1 @ [contexts st1 ! c]\<rparr>)
        c key v) ! length (contexts st1) = contexts st1 ! c"
    using c by (simp add: context_assign_def)
  have others: "\<forall>b d key v.
      b < length (suites st1) \<and> b \<noteq> a \<and> sharedContext (suites st1 ! b) = Some d \<longrightarrow>
      contexts (context_assign st1 d key v) ! c = contexts st1 ! c \<and>
      sharedUserContext (context_assign st1 d key v) a = Some (c, context_assign st1 d key v)"
  proof (intro allI impI)
    fix b d key v
    assume h: "b < length (suites st1) \<and> b \<noteq> a \<and> sharedContext (suites st1 ! b) = Some d"
    from wf1 have "\<forall>x < length (suites st1). \<forall>y < length (suites st1).
        x \<noteq> y \<longrightarrow> sharedContext (suites st1 ! x) = None \<or>
                sharedContext (suites st1 ! x) \<noteq> sharedContext (suites st1 ! y)"
      by (simp add: well_formed_def contexts_apart_def)
    from this[rule_format, of a b] a1 h at have "d \<noteq> c" by auto
    then have "contexts (context_assign st1 d key v) ! c = contexts st1 ! c"
      by (rule context_assign_other)
    moreover have "sharedUserContext (context_assign st1 d key v) a =
        Some (c, context_assign st1 d key v)"
      using la1 at
      by (intro sharedUserContext_existing[where s = "suites st1 ! a"])
         (simp_all add: context_assign_suites)
    ultimately show "contexts (context_assign st1 d key v) ! c = contexts st1 ! c \<and>
      sharedUserContext (context_assign st1 d key v) a = Some (c, context_assign st1 d key v)"
      by simp
  qed
  from only have kept: "take (length (contexts st)) (contexts st1) = contexts st"
    by (simp add: only_contexts_set_def)
  note inh = sharedUserContext_inherits[OF assms(1) a call]
  from inh have inh_a: "inherited_contents st a (contexts st1 ! c)" by (rule conjunct1)
  then have inh_ex: "\<exists>ps. inherited_contents st a ps" by (rule exI)
  have inh_all: "\<forall>ps. inherited_contents st a ps \<longrightarrow> contexts st1 ! c = ps"
  proof (intro allI impI)
    fix ps assume "inherited_contents st a ps"
    with inh_a show "contexts st1 ! c = ps" by (rule inherited_contents_unique)
  qed
  have from_parent: "\<forall>p pc0.
      sharedContext s = None \<and> parentSuite s = Some p \<and>
      sharedContext (suites st ! p) = Some pc0 \<longrightarrow>
      sharedContext (suites st1 ! p) = Some pc0 \<and>
      contexts st1 ! pc0 = contexts st ! pc0 \<and>
      contexts st1 ! c = contexts st ! pc0"
  proof (intro allI impI)
    fix p pc0
    assume h: "sharedContext s = None \<and> parentSuite s = Some p \<and>
      sharedContext (suites st ! p) = Some pc0"
    note parts = only_contexts_set_well_formed_parts[OF only]
    from assms(1) a s h have "p < a" by (auto simp: well_formed_def parents_earlier_iff)
    with a have p: "p < length (suites st)" by simp
    from h have at_p: "sharedContext (suites st ! p) = Some pc0" by simp
    from assms(1) p at_p have pc0: "pc0 < length (contexts st)"
      by (simp add: well_formed_def contexts_exist_iff)
    have 1: "sharedContext (suites st1 ! p) = Some pc0" using p at_p by (rule parts(4))
    have 2: "contexts st1 ! pc0 = contexts st ! pc0" using pc0 by (rule parts(5))
    from p have "lookup (suites st) p = Some (suites st ! p)" by (simp add: lookup_def)
    moreover note at_p
    moreover from pc0 have "lookup (contexts st) pc0 = Some (contexts st ! pc0)"
      by (simp add: lookup_def)
    ultimately have ip: "inherited_contents st p (contexts st ! pc0)"
      by (rule inherited_contents.own)
    from h have no_ctx: "sharedContext s = None" and par: "parentSuite s = Some p" by simp_all
    from assms(2) no_ctx par ip have "inherited_contents st a (contexts st ! pc0)"
      by (rule inherited_contents.parent)
    with inh_all have 3: "contexts st1 ! c = contexts st ! pc0" by blast
    from 1 2 3 show "sharedContext (suites st1 ! p) = Some pc0 \<and>
      contexts st1 ! pc0 = contexts st ! pc0 \<and> contexts st1 ! c = contexts st ! pc0"
      by simp
  qed
  have given: "\<forall>b d.
      b < length (suites st) \<and> sharedContext (suites st ! b) = None \<and>
      sharedContext (suites st1 ! b) = Some d \<longrightarrow>
      length (contexts st) \<le> d \<and>
      (\<exists>path. path_from_root (suites st) path a \<and> b \<in> set path) \<and>
      (\<forall>ps. inherited_contents st b ps \<longrightarrow> contexts st1 ! d = ps)"
  proof (intro allI impI)
    fix b d
    assume h: "b < length (suites st) \<and> sharedContext (suites st ! b) = None \<and>
      sharedContext (suites st1 ! b) = Some d"
    from inh have "\<forall>b d. b < length (suites st) \<and> sharedContext (suites st ! b) = None \<and>
                sharedContext (suites st1 ! b) = Some d \<longrightarrow>
                length (contexts st) \<le> d \<and>
                (\<exists>path. path_from_root (suites st) path a \<and> b \<in> set path) \<and>
                inherited_contents st b (contexts st1 ! d)"
      by (rule conjunct2)
    from this[rule_format, OF h] have
      1: "length (contexts st) \<le> d" and
      2: "\<exists>path. path_from_root (suites st) path a \<and> b \<in> set path" and
      3: "inherited_contents st b (contexts st1 ! d)"
      by simp_all
    have "\<forall>ps. inherited_contents st b ps \<longrightarrow> contexts st1 ! d = ps"
    proof (intro allI impI)
      fix ps assume "inherited_contents st b ps"
      with 3 show "contexts st1 ! d = ps" by (rule inherited_contents_unique)
    qed
    with 1 2 show "length (contexts st) \<le> d \<and>
      (\<exists>path. path_from_root (suites st) path a \<and> b \<in> set path) \<and>
      (\<forall>ps. inherited_contents st b ps \<longrightarrow> contexts st1 ! d = ps)"
      by simp
  qed
  show ?thesis
    using call at c existing created again cloned clone_apart others only kept inh_ex inh_all
      from_parent given
    by (intro exI[of _ c] exI[of _ st1] conjI)
qed

lemma run_snapshot_events: "run empty_store snapshot_events = Some parent_x1"
  by (simp add: snapshot_events_def parent_x1_def empty_store_def example_attrs_def
      constructed_def Suite_def Let_def getFullName_def getFullName_loop_Some
      getFullName_loop_None lookup_def sharedUserContext_root set_sharedContext_def
      context_assign_def set_prop_def)

lemma run_three_levels_events: "run empty_store three_levels_events = Some three_levels"
  by (simp add: three_levels_events_def three_levels_def empty_store_def example_attrs_def
      constructed_def Suite_def Let_def getFullName_def getFullName_loop_Some
      getFullName_loop_None lookup_def sharedUserContext_root set_sharedContext_def
      context_assign_def set_prop_def)

lemma sharedUserContext_three_levels:
  "sharedUserContext three_levels 2 = Some (2, three_levels_shared)"
  by (subst sharedUserContext.simps, subst sharedUserContext.simps,
      subst sharedUserContext.simps)
     (simp add: three_levels_def three_levels_shared_def lookup_def constructed_def
        fromExisting_def set_sharedContext_def)

theorem sharedUserContext_lazy_snapshot_witness:
  "run empty_store snapshot_events = Some parent_x1 \<and>
   well_formed parent_x1 \<and>
   lookup (suites parent_x1) 1 = Some (constructed ''Calculator'' (Some 0) False ''Calculator'') \<and>
   sharedUserContext parent_x1 1 = Some (1, child_x1) \<and>
   contexts child_x1 = [[(''x'', JNum 1)], [(''x'', JNum 1)]] \<and>
   contexts child_x1 ! 1 = contexts parent_x1 ! 0 \<and>
   contexts (context_assign child_x1 0 ''x'' (JNum 2)) =
     [[(''x'', JNum 2)], [(''x'', JNum 1)]] \<and>
   sharedUserContext (context_assign child_x1 0 ''x'' (JNum 2)) 1 =
     Some (1, context_assign child_x1 0 ''x'' (JNum 2)) \<and>
   get_prop (contexts (context_assign child_x1 0 ''x'' (JNum 2)) ! 1) ''x'' = Some (JNum 1) \<and>
   run empty_store three_levels_events = Some three_levels \<and>
   well_formed three_levels \<and>
   lookup (suites three_levels) 2 = Some (constructed ''add'' (Some 1) True ''Calculator add'') \<and>
   sharedUserContext three_levels 2 = Some (2, three_levels_shared) \<and>
   inherited_contents three_levels 2 [(''x'', JNum 1), (''y'', JNum 2)] \<and>
   contexts three_levels_shared ! 2 = [(''x'', JNum 1), (''y'', JNum 2)] \<and>
   take 1 (contexts three_levels_shared) = contexts three_levels"
proof -
  have 1: "run empty_store snapshot_events = Some parent_x1" by (rule run_snapshot_events)
  have 2: "well_formed parent_x1" using 1 by (rule reachable_consistent)
  have 3: "lookup (suites parent_x1) 1 =
      Some (constructed ''Calculator'' (Some 0) False ''Calculator'')"
    by (simp add: lookup_def parent_x1_def)
  have 4: "sharedUserContext parent_x1 1 = Some (1, child_x1)"
    by (subst sharedUserContext.simps, subst sharedUserContext.simps)
       (simp add: parent_x1_def child_x1_def lookup_def constructed_def fromExisting_def
          set_sharedContext_def)
  have 5: "contexts (context_assign child_x1 0 ''x'' (JNum 2)) =
      [[(''x'', JNum 2)], [(''x'', JNum 1)]]"
    by (simp add: context_assign_def child_x1_def set_prop_def)
  have 6: "0 < length (suites child_x1) \<and> (0::nat) \<noteq> 1 \<and>
      sharedContext (suites child_x1 ! 0) = Some 0"
    by (simp add: child_x1_def constructed_def)
  have 7: "sharedContext (constructed ''Calculator'' (Some 0) False ''Calculator'') = None \<and>
      parentSuite (constructed ''Calculator'' (Some 0) False ''Calculator'') = Some 0 \<and>
      sharedContext (suites parent_x1 ! 0) = Some 0"
    by (simp add: parent_x1_def constructed_def)
  from sharedUserContext_lazy_snapshot[OF 2 3] obtain c st1 where
    call: "sharedUserContext parent_x1 1 = Some (c, st1)" and
    others: "\<forall>b d key v.
      b < length (suites st1) \<and> b \<noteq> 1 \<and> sharedContext (suites st1 ! b) = Some d \<longrightarrow>
      contexts (context_assign st1 d key v) ! c = contexts st1 ! c \<and>
      sharedUserContext (context_assign st1 d key v) 1 = Some (c, context_assign st1 d key v)"
    and from_parent: "\<forall>p pc0.
      sharedContext (constructed ''Calculator'' (Some 0) False ''Calculator'') = None \<and>
      parentSuite (constructed ''Calculator'' (Some 0) False ''Calculator'') = Some p \<and>
      sharedContext (suites parent_x1 ! p) = Some pc0 \<longrightarrow>
      sharedContext (suites st1 ! p) = Some pc0 \<and>
      contexts st1 ! pc0 = contexts parent_x1 ! pc0 \<and>
      contexts st1 ! c = contexts parent_x1 ! pc0"
    by (elim exE conjE) (rule that)
  from call 4 have eq: "c = 1" "st1 = child_x1" by simp_all
  from others[rule_format, of 0 0 "''x''" "JNum 2"] 6
  have 8: "contexts (context_assign child_x1 0 ''x'' (JNum 2)) ! 1 = contexts child_x1 ! 1 \<and>
        sharedUserContext (context_assign child_x1 0 ''x'' (JNum 2)) 1 =
          Some (1, context_assign child_x1 0 ''x'' (JNum 2))"
    unfolding eq by simp
  from from_parent[rule_format, of 0 0] 7
  have 9: "contexts child_x1 ! 1 = contexts parent_x1 ! 0"
    unfolding eq by simp
  have 10: "contexts child_x1 = [[(''x'', JNum 1)], [(''x'', JNum 1)]]"
    by (simp add: child_x1_def)
  have a: "run empty_store three_levels_events = Some three_levels"
    by (rule run_three_levels_events)
  have b: "well_formed three_levels" using a by (rule reachable_consistent)
  have l2: "lookup (suites three_levels) 2 =
      Some (constructed ''add'' (Some 1) True ''Calculator add'')"
    and l1: "lookup (suites three_levels) 1 =
      Some (constructed ''Calculator'' (Some 0) False ''Calculator'')"
    and l0: "lookup (suites three_levels) 0 =
      Some ((constructed ''Jasmine__TopLevel__Suite'' None False '''')\<lparr>sharedContext := Some 0\<rparr>)"
    and lc: "lookup (contexts three_levels) 0 = Some [(''x'', JNum 1), (''y'', JNum 2)]"
    by (simp_all add: lookup_def three_levels_def)
  have d: "sharedUserContext three_levels 2 = Some (2, three_levels_shared)"
    by (rule sharedUserContext_three_levels)
  have i0: "inherited_contents three_levels 0 [(''x'', JNum 1), (''y'', JNum 2)]"
    using l0 _ lc by (rule inherited_contents.own) (simp add: constructed_def)
  have i1: "inherited_contents three_levels 1 [(''x'', JNum 1), (''y'', JNum 2)]"
    using l1 _ _ i0 by (rule inherited_contents.parent) (simp_all add: constructed_def)
  have i2: "inherited_contents three_levels 2 [(''x'', JNum 1), (''y'', JNum 2)]"
    using l2 _ _ i1 by (rule inherited_contents.parent) (simp_all add: constructed_def)
  from sharedUserContext_lazy_snapshot[OF b l2] obtain c' st2 where
    call': "sharedUserContext three_levels 2 = Some (c', st2)" and
    kept: "take (length (contexts three_levels)) (contexts st2) = contexts three_levels" and
    inh: "\<forall>ps. inherited_contents three_levels 2 ps \<longrightarrow> contexts st2 ! c' = ps"
    by (elim exE conjE) (rule that)
  from call' d have eq': "c' = 2" "st2 = three_levels_shared" by simp_all
  from inh i2 have e: "contexts three_levels_shared ! 2 = [(''x'', JNum 1), (''y'', JNum 2)]"
    unfolding eq' by blast
  from kept have f: "take 1 (contexts three_levels_shared) = contexts three_levels"
    unfolding eq' by (simp add: three_levels_def)
  from 5 have 11:
    "get_prop (contexts (context_assign child_x1 0 ''x'' (JNum 2)) ! 1) ''x'' = Some (JNum 1)"
    by (simp add: get_prop_def)
  from 8 have 12: "sharedUserContext (context_assign child_x1 0 ''x'' (JNum 2)) 1 =
      Some (1, context_assign child_x1 0 ''x'' (JNum 2))"
    by (rule conjunct2)
  show ?thesis
    using 1 2 3 4 10 9 5 12 11 a b l2 d i2 e f by (intro conjI)
qed

end
